theory Spec2Isabelle
  imports Main "HOL-Library.Multiset" "HOL-Library.AList" "HOL-Library.Sublist"
begin

section \<open>Cards\<close>

text \<open>
  The constants of \<^verbatim>\<open>src/dos/Game.ts\<close>: four seats, the rank letters from the lowest
  card (3) to the highest (2), and the suit letters in ascending order.
\<close>

definition NUM_PLAYERS :: nat where
  "NUM_PLAYERS = 4"

definition RANKS :: string where
  "RANKS = ''3456789TJQKA2''"

definition SUITS :: string where
  "SUITS = ''CSHD''"

text \<open>The enum \<^verbatim>\<open>Combi\<close> and the number TypeScript gives each member.\<close>

datatype Combi = CNone | Straight | Flush | FullHouse | Quadro | StraightFlush

fun Combi_num :: "Combi \<Rightarrow> int" where
  "Combi_num CNone = 0"
| "Combi_num Straight = 1"
| "Combi_num Flush = 2"
| "Combi_num FullHouse = 3"
| "Combi_num Quadro = 4"
| "Combi_num StraightFlush = 5"

text \<open>
  \<^verbatim>\<open>String.prototype.indexOf\<close>: the position of the first occurrence of the search
  string, or \<open>-1\<close>. The search string may be longer than one character, and the empty
  search string is found at position 0.
\<close>

fun indexOf_from :: "string \<Rightarrow> string \<Rightarrow> int \<Rightarrow> int" where
  "indexOf_from [] p i = (if p = [] then i else - 1)"
| "indexOf_from (c # t) p i = (if prefix p (c # t) then i else indexOf_from t p (i + 1))"

definition indexOf :: "string \<Rightarrow> string \<Rightarrow> int" where
  "indexOf s p = indexOf_from s p 0"

text \<open>
  A card holds two strings. \<^verbatim>\<open>Card.fromString\<close> destructures \<^verbatim>\<open>s.split('')\<close>, so a
  field is one character of the input, or the JavaScript value \<^verbatim>\<open>undefined\<close> when the
  input is too short. Every use of a field in this program coerces \<^verbatim>\<open>undefined\<close> to the
  text \<^verbatim>\<open>undefined\<close> (the template literal of \<^verbatim>\<open>toString\<close>, the property key of the
  frequency table, the argument of \<^verbatim>\<open>indexOf\<close>) or compares two fields with \<^verbatim>\<open>===\<close>,
  where a defined field is a single character. The model therefore stores that text for a
  missing field. The program builds cards in \<^verbatim>\<open>fromString\<close> and \<^verbatim>\<open>newDeck\<close> only, so these
  are the field values that occur.
\<close>

record Card =
  rank :: string
  suit :: string

definition js_undefined :: string where
  "js_undefined = ''undefined''"

definition Card_value :: "Card \<Rightarrow> int" where
  "Card_value c = indexOf RANKS (rank c) * 4 + indexOf SUITS (suit c)"

definition Card_toString :: "Card \<Rightarrow> string" where
  "Card_toString c = rank c @ suit c"

fun Card_fromString :: "string \<Rightarrow> Card" where
  "Card_fromString [] = \<lparr>rank = js_undefined, suit = js_undefined\<rparr>"
| "Card_fromString [r] = \<lparr>rank = [r], suit = js_undefined\<rparr>"
| "Card_fromString (r # s # _) = \<lparr>rank = [r], suit = [s]\<rparr>"

definition Card_newDeck :: "Card list" where
  "Card_newDeck = concat (map (\<lambda>r. map (\<lambda>s. \<lparr>rank = [r], suit = [s]\<rparr>) SUITS) RANKS)"

definition Card_lowest :: Card where
  "Card_lowest = Card_fromString ''3C''"

section \<open>Plays and the combination evaluator\<close>

text \<open>
  The constructor of \<^verbatim>\<open>Play\<close> sorts the cards ascending by value. Its comparator
  answers \<open>-1\<close> for two cards of equal value, so the order of such cards is left to the
  engine's sort; the model sorts stably. Two cards of the deck have the same value only
  when they are the same card, so the order of a play of deck cards does not depend on
  that choice, and the evaluator reads no more than the value, or the rank and suit
  indices, of the card at a position.
\<close>

record Play =
  cards :: "Card list"
  player :: "nat option"

definition new_Play :: "Card list \<Rightarrow> nat option \<Rightarrow> Play" where
  "new_Play cs p = \<lparr>cards = sort_key Card_value cs, player = p\<rparr>"

text \<open>
  \<^verbatim>\<open>withSameRank\<close>: the frequency table of the ranks, built by \<^verbatim>\<open>reduce\<close>, and the set
  of its values. The table is an object keyed by rank; a rank is a single character or the
  text \<^verbatim>\<open>undefined\<close>, neither of which is a property an empty object inherits, so
  \<^verbatim>\<open>freqs[rank] || 0\<close> is the count so far, or 0.
\<close>

definition freq_step :: "Card \<Rightarrow> (string \<times> nat) list \<Rightarrow> (string \<times> nat) list" where
  "freq_step c freqs =
     AList.update (rank c) ((case map_of freqs (rank c) of None \<Rightarrow> 0 | Some n \<Rightarrow> n) + 1) freqs"

definition withSameRank :: "Play \<Rightarrow> nat set" where
  "withSameRank p = set (map snd (fold freq_step (cards p) []))"

text \<open>
  \<^verbatim>\<open>new Set(xs)\<close> keeps the first occurrence of every element, in insertion order.
\<close>

definition Set_from :: "'a list \<Rightarrow> 'a list" where
  "Set_from xs = rev (remdups (rev xs))"

definition num :: "Card \<Rightarrow> int" where
  "num c = (indexOf RANKS (rank c) + 2) mod 13"

text \<open>
  \<^verbatim>\<open>straight()\<close>. \<^verbatim>\<open>card?.value\<close> is \<^verbatim>\<open>undefined\<close> when \<^verbatim>\<open>find\<close> finds nothing, and the
  function returns \<^verbatim>\<open>undefined\<close> when it falls off its end: both are \<open>None\<close>. The indices
  0 and 4 are read only under \<open>length numSet = 5\<close>.
\<close>

definition straight :: "Play \<Rightarrow> int option" where
  "straight p =
     (let numSet = Set_from (map num (cards p)) in
      if length numSet = 5 then
        (let nums = sort numSet in
         if nums ! 0 + 4 = nums ! 4 then
           map_option Card_value (find (\<lambda>c. num c = nums ! 4) (cards p))
         else if nums ! 0 = 0 then
           (let nums' = sort (nums[0 := 13]) in
            if nums' ! 0 + 4 = nums' ! 4 then
              map_option Card_value (find (\<lambda>c. num c = 0) (cards p))
            else None)
         else None)
      else None)"

text \<open>
  \<^verbatim>\<open>flush()\<close>, \<^verbatim>\<open>quadro()\<close> and \<^verbatim>\<open>fullHouse()\<close> are called from the five-card case of
  \<^verbatim>\<open>value\<close> only, so the positions 0, 1, 2 and 4 they read exist.
\<close>

definition flush :: "Play \<Rightarrow> int option" where
  "flush p =
     (if list_all (\<lambda>c. suit c = suit (cards p ! 0)) (cards p) then
        Some (indexOf SUITS (suit (cards p ! 4)) * 13 + indexOf RANKS (rank (cards p ! 4)))
      else None)"

definition quadro :: "Play \<Rightarrow> int option" where
  "quadro p = (if 4 \<in> withSameRank p then Some (Card_value (cards p ! 1)) else None)"

definition fullHouse :: "Play \<Rightarrow> int option" where
  "fullHouse p =
     (if 2 \<in> withSameRank p \<and> 3 \<in> withSameRank p then Some (Card_value (cards p ! 2)) else None)"

text \<open>
  The tests \<^verbatim>\<open>if (val)\<close> and \<^verbatim>\<open>if ((val = this.quadro()))\<close> are truthiness tests:
  \<^verbatim>\<open>undefined\<close> and the number 0 both fail them. Where a test has passed, the value is
  a number, which \<open>the\<close> reads.
\<close>

fun truthy :: "int option \<Rightarrow> bool" where
  "truthy None = False"
| "truthy (Some v) = (v \<noteq> 0)"

text \<open>The immediately invoked function of the five-card case: the kind and its value.\<close>

definition combi5 :: "Play \<Rightarrow> Combi \<times> int" where
  "combi5 p =
     (let val = straight p in
      if truthy val then
        (if truthy (flush p) then (StraightFlush, the val) else (Straight, the val))
      else if truthy (quadro p) then (Quadro, the (quadro p))
      else if truthy (fullHouse p) then (FullHouse, the (fullHouse p))
      else if truthy (flush p) then (Flush, the (flush p))
      else (CNone, 0))"

text \<open>
  The getter \<^verbatim>\<open>value\<close>: \<open>None\<close> is the \<^verbatim>\<open>null\<close> it returns for a list that is not a
  combination (and for every length other than 1, 2, 3 and 5).
\<close>

definition Play_value :: "Play \<Rightarrow> int option" where
  "Play_value p =
     (if length (cards p) = 1 then Some (Card_value (cards p ! 0))
      else if length (cards p) = 2 then
        (if 2 \<in> withSameRank p then Some (Card_value (cards p ! 1)) else None)
      else if length (cards p) = 3 then
        (if 3 \<in> withSameRank p then Some (Card_value (cards p ! 0)) else None)
      else if length (cards p) = 5 then
        (case combi5 p of
           (combi, val) \<Rightarrow> if combi = CNone then None else Some (Combi_num combi * 1000 + val))
      else None)"

section \<open>The round state and the moves\<close>

text \<open>
  \<^verbatim>\<open>Play.fromString\<close> on an array of card strings, which is what the move passes (the
  branch that splits a single string at white space is not used by the game).
\<close>

type_synonym CardStr = string

definition Play_fromString :: "CardStr list \<Rightarrow> nat option \<Rightarrow> Play" where
  "Play_fromString s p = new_Play (map Card_fromString s) p"

text \<open>
  The state \<^verbatim>\<open>G\<close>. The two \<^verbatim>\<open>Record\<close>s are objects keyed by seat, modelled as
  association lists. An entry of a discarded group is \<open>None\<close> where the source stored
  the \<^verbatim>\<open>undefined\<close> that \<^verbatim>\<open>pop()\<close> gives on an empty array.
\<close>

record State =
  players :: "(nat \<times> CardStr list) list"
  remaining :: "(nat \<times> nat) list"
  firstTurn :: nat
  hasStarted :: bool
  discarded :: "CardStr option list list"
  lastPlay :: "Play option"
  winners :: "nat list"

text \<open>
  The part of the framework's \<^verbatim>\<open>ctx\<close> the game reads. \<open>currentPlayer\<close> holds the seat
  number \<^verbatim>\<open>toInt(ctx.currentPlayer)\<close>.
\<close>

record Ctx =
  currentPlayer :: nat
  playOrderPos :: nat
  numPlayers :: nat

text \<open>
  The dealing loop of \<^verbatim>\<open>setup\<close>, on the deck the injected \<^verbatim>\<open>Shuffle\<close> returned.
  \<^verbatim>\<open>Object.keys(players).length\<close> is the number of entries of the association list.
\<close>

function deal ::
  "Card list \<Rightarrow> (nat \<times> CardStr list) list \<Rightarrow> (nat \<times> nat) list \<Rightarrow> nat
     \<Rightarrow> (nat \<times> CardStr list) list \<times> (nat \<times> nat) list \<times> nat" where
  "deal deck ps rs ft =
     (if length deck > 0 then
        (let p = length ps;
             hand = take 13 deck;
             ft' = (if list_ex (\<lambda>c. Card_value c = Card_value Card_lowest) hand then p else ft)
         in deal (drop 13 deck) (AList.update p (map Card_toString hand) ps)
              (AList.update p (length hand) rs) ft')
      else (ps, rs, ft))"
  by pat_completeness auto
termination
  by (relation "measure (\<lambda>(deck, ps, rs, ft). length deck)") auto

definition Dos_setup :: "Card list \<Rightarrow> State" where
  "Dos_setup deck =
     (case deal deck [] [] 0 of
        (ps, rs, ft) \<Rightarrow>
          \<lparr>players = ps, remaining = rs, firstTurn = ft, hasStarted = False,
           discarded = [], lastPlay = None, winners = []\<rparr>)"

text \<open>
  \<^verbatim>\<open>getNext\<close>: a \<^verbatim>\<open>while (true)\<close> loop, which returns \<open>None\<close> here when it runs forever.
  (With \<open>numPlayers = 0\<close> JavaScript's \<^verbatim>\<open>%\<close> gives \<^verbatim>\<open>NaN\<close>; the game is declared with
  \<^verbatim>\<open>minPlayers = maxPlayers = NUM_PLAYERS\<close>, and the theorems below fix that number.)
\<close>

partial_function (option) getNext_loop :: "State \<Rightarrow> Ctx \<Rightarrow> nat \<Rightarrow> nat option" where
  "getNext_loop G ctx i =
     (let nextPlayer = (playOrderPos ctx + i) mod numPlayers ctx in
      if nextPlayer \<in> set (winners G) then getNext_loop G ctx (i + 1)
      else Some nextPlayer)"

declare getNext_loop.simps [code]

definition getNext :: "State \<Rightarrow> Ctx \<Rightarrow> nat option" where
  "getNext G ctx = getNext_loop G ctx 1"

text \<open>
  \<^verbatim>\<open>Array.prototype.indexOf\<close> (\<open>-1\<close> when absent), \<^verbatim>\<open>xs.splice(start, 1)\<close> with its
  relative start (a negative start counts from the end), returning the removed elements
  and the remaining array, and \<^verbatim>\<open>pop()\<close>.
\<close>

fun Array_indexOf_from :: "'a list \<Rightarrow> 'a \<Rightarrow> int \<Rightarrow> int" where
  "Array_indexOf_from [] x i = - 1"
| "Array_indexOf_from (y # ys) x i = (if y = x then i else Array_indexOf_from ys x (i + 1))"

definition Array_indexOf :: "'a list \<Rightarrow> 'a \<Rightarrow> int" where
  "Array_indexOf xs x = Array_indexOf_from xs x 0"

definition splice1 :: "'a list \<Rightarrow> int \<Rightarrow> 'a list \<times> 'a list" where
  "splice1 xs start =
     (let len = int (length xs);
          actualStart = (if start < 0 then max (len + start) 0 else min start len);
          deleteCount = min 1 (len - actualStart)
      in (take (nat deleteCount) (drop (nat actualStart) xs),
          take (nat actualStart) xs @ drop (nat (actualStart + deleteCount)) xs))"

definition pop :: "'a list \<Rightarrow> 'a option" where
  "pop xs = (if xs = [] then None else Some (last xs))"

text \<open>
  \<^verbatim>\<open>playString.map((card) => hand.splice(hand.indexOf(card), 1).pop()!)\<close>: the hand is
  spliced once for every string of the play, in order; the result is the discarded group
  and the hand that is left.
\<close>

fun discard_cards :: "CardStr list \<Rightarrow> CardStr list \<Rightarrow> CardStr option list \<times> CardStr list" where
  "discard_cards [] hand = ([], hand)"
| "discard_cards (c # cs) hand =
     (case splice1 hand (Array_indexOf hand c) of
        (removed, hand') \<Rightarrow>
          (case discard_cards cs hand' of (ds, hand'') \<Rightarrow> (pop removed # ds, hand'')))"

text \<open>
  What a move does: it returns \<^verbatim>\<open>INVALID_MOVE\<close>, it returns nothing after changing the
  state (\<open>Done\<close>), or it throws a \<^verbatim>\<open>TypeError\<close> (reading \<^verbatim>\<open>includes\<close> of a hand that does
  not exist). The state is threaded through the move and returned as it is at that point.
\<close>

datatype MoveResult = INVALID_MOVE | TypeError | Done

text \<open>
  \<^verbatim>\<open>playValue < G.lastPlay.value!\<close>: a \<^verbatim>\<open>null\<close> on the right is compared as the number 0.
\<close>

fun ToNumber :: "int option \<Rightarrow> int" where
  "ToNumber None = 0"
| "ToNumber (Some v) = v"

text \<open>The tail of \<^verbatim>\<open>play\<close>, from the comment "Remove played cards from hand" on.\<close>

definition play_commit :: "State \<Rightarrow> Ctx \<Rightarrow> Play \<Rightarrow> CardStr list \<Rightarrow> CardStr list \<Rightarrow> State" where
  "play_commit G ctx pl playString hand =
     (case discard_cards playString hand of
        (discard, hand') \<Rightarrow>
          (let G1 = G\<lparr>players := AList.update (currentPlayer ctx) hand' (players G),
                       discarded := discarded G @ [discard],
                       lastPlay := Some pl\<rparr>;
               G2 = (if length hand' = 0
                     then G1\<lparr>winners := winners G1 @ [currentPlayer ctx], lastPlay := None\<rparr>
                     else G1)
           in G2\<lparr>remaining := AList.update (currentPlayer ctx) (length hand') (remaining G2)\<rparr>))"

definition play :: "State \<Rightarrow> Ctx \<Rightarrow> CardStr list \<Rightarrow> MoveResult \<times> State" where
  "play G ctx cs =
     (let pl = Play_fromString cs (Some (currentPlayer ctx));
          playString = map Card_toString (cards pl)
      in case Play_value pl of
           None \<Rightarrow> (INVALID_MOVE, G)
         | Some playValue \<Rightarrow>
             (case map_of (players G) (currentPlayer ctx) of
                None \<Rightarrow> (TypeError, G)
              | Some hand \<Rightarrow>
                  if \<not> list_all (\<lambda>c. c \<in> set hand) playString then (INVALID_MOVE, G)
                  else
                    (case lastPlay G of
                       None \<Rightarrow>
                         if \<not> hasStarted G then
                           (if Card_toString Card_lowest \<notin> set playString then (INVALID_MOVE, G)
                            else (Done, play_commit (G\<lparr>hasStarted := True\<rparr>) ctx pl playString hand))
                         else (Done, play_commit G ctx pl playString hand)
                     | Some lp \<Rightarrow>
                         if length (cards lp) \<noteq> length (cards pl) then (INVALID_MOVE, G)
                         else if playValue < ToNumber (Play_value lp) then (INVALID_MOVE, G)
                         else (Done, play_commit G ctx pl playString hand))))"

text \<open>
  \<^verbatim>\<open>pass\<close> calls \<^verbatim>\<open>getNext\<close>, so it returns only if that loop does: the outer \<open>None\<close> is
  a move that never returns.
\<close>

definition pass :: "State \<Rightarrow> Ctx \<Rightarrow> (MoveResult \<times> State) option" where
  "pass G ctx =
     (case lastPlay G of
        None \<Rightarrow> Some (INVALID_MOVE, G)
      | Some lp \<Rightarrow>
          (case getNext G ctx of
             None \<Rightarrow> None
           | Some n \<Rightarrow> Some (Done, if player lp = Some n then G\<lparr>lastPlay := None\<rparr> else G)))"

definition endIf :: "State \<Rightarrow> bool" where
  "endIf G = (length (winners G) = 3)"

text \<open>
  The turn order the game declares: the first turn is \<^verbatim>\<open>G.firstTurn\<close>, every move ends
  the turn (\<^verbatim>\<open>moveLimit: 1\<close>, \<^verbatim>\<open>endTurn\<close>), the next position is \<^verbatim>\<open>getNext\<close> on the state
  the move left, the seat at a position is the position itself, and no move is taken once
  \<^verbatim>\<open>endIf\<close> holds. A state is reachable when accepted moves lead to it from a deal of a
  shuffled deck.
\<close>

definition turn_to :: "Ctx \<Rightarrow> nat \<Rightarrow> Ctx" where
  "turn_to ctx n = ctx\<lparr>currentPlayer := n, playOrderPos := n\<rparr>"

inductive step :: "State \<Rightarrow> Ctx \<Rightarrow> State \<Rightarrow> Ctx \<Rightarrow> bool" where
  step_play:
    "\<not> endIf G \<Longrightarrow> play G ctx cs = (Done, G') \<Longrightarrow> getNext G' ctx = Some n \<Longrightarrow>
     step G ctx G' (turn_to ctx n)"
| step_pass:
    "\<not> endIf G \<Longrightarrow> pass G ctx = Some (Done, G') \<Longrightarrow> getNext G' ctx = Some n \<Longrightarrow>
     step G ctx G' (turn_to ctx n)"

inductive reachable :: "State \<Rightarrow> Ctx \<Rightarrow> bool" where
  reach_setup:
    "mset deck = mset Card_newDeck \<Longrightarrow>
     reachable (Dos_setup deck)
       \<lparr>currentPlayer = firstTurn (Dos_setup deck), playOrderPos = firstTurn (Dos_setup deck),
        numPlayers = NUM_PLAYERS\<rparr>"
| reach_step:
    "reachable G ctx \<Longrightarrow> step G ctx G' ctx' \<Longrightarrow> reachable G' ctx'"

text \<open>\<open>later G ctx G' ctx'\<close>: the state \<open>G'\<close> comes after \<open>G\<close>, by any number of moves.\<close>

inductive later :: "State \<Rightarrow> Ctx \<Rightarrow> State \<Rightarrow> Ctx \<Rightarrow> bool" where
  later_refl: "later G ctx G ctx"
| later_step: "step G ctx G' ctx' \<Longrightarrow> later G' ctx' G'' ctx'' \<Longrightarrow> later G ctx G'' ctx''"

text \<open>
  A run of moves from a state, each at the turn the previous one left: \<open>None\<close> when a
  move of the run is not accepted (or does not return).
\<close>

datatype Move = Play_cards "CardStr list" | Pass_turn

fun run_moves :: "State \<Rightarrow> Ctx \<Rightarrow> Move list \<Rightarrow> (State \<times> Ctx) option" where
  "run_moves G ctx [] = Some (G, ctx)"
| "run_moves G ctx (Play_cards cs # ms) =
     (if endIf G then None
      else (case play G ctx cs of
              (Done, G') \<Rightarrow>
                (case getNext G' ctx of
                   Some n \<Rightarrow> run_moves G' (turn_to ctx n) ms
                 | None \<Rightarrow> None)
            | _ \<Rightarrow> None))"
| "run_moves G ctx (Pass_turn # ms) =
     (if endIf G then None
      else (case pass G ctx of
              Some (Done, G') \<Rightarrow>
                (case getNext G' ctx of
                   Some n \<Rightarrow> run_moves G' (turn_to ctx n) ms
                 | None \<Rightarrow> None)
            | _ \<Rightarrow> None))"

text \<open>
  The cards of a state, for the accounting of the deck: the card strings of all hands, and
  the card strings of the discard history, which are the entries of its groups that are
  defined (an \<^verbatim>\<open>undefined\<close> entry is no card).
\<close>

fun defined_entries :: "'a option list \<Rightarrow> 'a list" where
  "defined_entries [] = []"
| "defined_entries (None # xs) = defined_entries xs"
| "defined_entries (Some x # xs) = x # defined_entries xs"

definition hand_cards :: "State \<Rightarrow> CardStr list" where
  "hand_cards G = concat (map snd (players G))"

definition discarded_cards :: "State \<Rightarrow> CardStr list" where
  "discarded_cards G = defined_entries (concat (discarded G))"

section \<open>The ranks of a straight, in words\<close>

text \<open>
  The rank letters with the Ace lowest and the King highest. A list of five rank strings
  is a run in an ordering when the ranks are pairwise different and are five consecutive
  letters of the ordering. The ranks of a straight are a run with the Ace low, or the
  Ace-high run T, J, Q, K, A. Cards are of the same suit when any two of them have the same
  suit. \<open>rank_at\<close> numbers the ranks of the Ace-low ordering.
\<close>

definition ACE_LOW :: string where
  "ACE_LOW = ''A23456789TJQK''"

definition is_run :: "string \<Rightarrow> string list \<Rightarrow> bool" where
  "is_run order rs \<longleftrightarrow>
     distinct rs
     \<and> list_ex (\<lambda>i. set rs = (\<lambda>c. [c]) ` set (take 5 (drop i order))) [0..<length order - 4]"

definition straight_ranks :: "string list \<Rightarrow> bool" where
  "straight_ranks rs \<longleftrightarrow>
     is_run ACE_LOW rs \<or> (distinct rs \<and> set rs = {''T'', ''J'', ''Q'', ''K'', ''A''})"

definition same_suit :: "Card list \<Rightarrow> bool" where
  "same_suit cs \<longleftrightarrow> list_all (\<lambda>a. list_all (\<lambda>b. suit a = suit b) cs) cs"

definition rank_at :: "int \<Rightarrow> string" where
  "rank_at n = [ACE_LOW ! nat n]"

section \<open>Example states\<close>

text \<open>
  The deal of the unshuffled deck (seat 0 holds the thirteen lowest cards), the context of
  the turn of a seat, and the state after seat 0 has led the single card 3C.
\<close>

definition example_deal :: State where
  "example_deal = Dos_setup Card_newDeck"

definition seat_ctx :: "nat \<Rightarrow> Ctx" where
  "seat_ctx n = \<lparr>currentPlayer = n, playOrderPos = n, numPlayers = NUM_PLAYERS\<rparr>"

definition example_led :: State where
  "example_led = snd (play example_deal (seat_ctx 0) [''3C''])"

text \<open>
  Two runs from the deal of the unshuffled deck, in which seat 0 leads three times and
  the other seats pass in between. In the first, seat 0 is about to play its last three
  cards, 5S 5H 5D. In the second, seat 0 holds 5H 5D 6C and has played the five strings
  5H 5H 5H 6C 6C.
\<close>

definition after_moves :: "State \<Rightarrow> Ctx \<Rightarrow> Move list \<Rightarrow> State" where
  "after_moves G ctx ms = (case run_moves G ctx ms of Some (G', _) \<Rightarrow> G' | None \<Rightarrow> G)"

definition example_last_three :: State where
  "example_last_three =
     after_moves example_deal (seat_ctx 0)
       [Play_cards [''3C'', ''3S'', ''3H'', ''3D'', ''6C''], Pass_turn, Pass_turn, Pass_turn,
        Play_cards [''4C'', ''4S'', ''4H'', ''4D'', ''5C''], Pass_turn, Pass_turn, Pass_turn]"

definition example_overplay :: State where
  "example_overplay =
     after_moves example_deal (seat_ctx 0)
       [Play_cards [''3C'', ''3S'', ''3H'', ''3D'', ''4C''], Pass_turn, Pass_turn, Pass_turn,
        Play_cards [''4S'', ''4H'', ''4D'', ''5C'', ''5S''], Pass_turn, Pass_turn, Pass_turn,
        Play_cards [''5H'', ''5H'', ''5H'', ''6C'', ''6C'']]"

text \<open>
  The number \<^verbatim>\<open>flush()\<close> computes from the highest card of a play, as a function of the
  card, and a round from the deal of the unshuffled deck in which the four seats have
  played the singles 3C, 6S, 9H and QD in turn, so that seat 0 is to beat QD.
\<close>

definition flush_key :: "Card \<Rightarrow> int" where
  "flush_key c = indexOf SUITS (suit c) * 13 + indexOf RANKS (rank c)"

definition example_round :: State where
  "example_round =
     after_moves example_deal (seat_ctx 0)
       [Play_cards [''3C''], Play_cards [''6S''], Play_cards [''9H''], Play_cards [''QD'']]"

section \<open>Pairs and triples\<close>

lemma pair_same_rank:
  "2 \<in> withSameRank \<lparr>cards = [x, y], player = pl\<rparr> \<longleftrightarrow> rank x = rank y"
  by (simp add: withSameRank_def freq_step_def)

lemma triple_same_rank:
  "3 \<in> withSameRank \<lparr>cards = [x, y, z], player = pl\<rparr> \<longleftrightarrow> rank x = rank y \<and> rank y = rank z"
  by (auto simp: withSameRank_def freq_step_def)

lemma same_rank_value:
  "rank x = rank y \<Longrightarrow> Card_value x \<le> Card_value y \<longleftrightarrow> indexOf SUITS (suit x) \<le> indexOf SUITS (suit y)"
  by (simp add: Card_value_def)

text \<open>
  C5: two cards have a value exactly when they share their rank, and the value is the
  higher of the two card values; three cards have a value exactly when all three share
  their rank, and the value is the card value of the card of the lowest suit among them;
  otherwise the evaluator answers that the cards are no combination.
\<close>

theorem pair_and_triple_values:
  "Play_value (new_Play [a, b] pl)
     = (if rank a = rank b then Some (max (Card_value a) (Card_value b)) else None)
   \<and> Play_value (new_Play [a, b, c] pl)
     = (if rank a = rank b \<and> rank b = rank c
        then Some (Card_value (arg_min_list (\<lambda>x. indexOf SUITS (suit x)) [a, b, c]))
        else None)"
proof
  show "Play_value (new_Play [a, b] pl)
     = (if rank a = rank b then Some (max (Card_value a) (Card_value b)) else None)"
    by (auto simp: Play_value_def new_Play_def pair_same_rank)
next
  have "Play_value (new_Play [a, b, c] pl) = None" if "\<not> (rank a = rank b \<and> rank b = rank c)"
    using that by (auto simp: Play_value_def new_Play_def triple_same_rank)
  moreover have "Play_value (new_Play [a, b, c] pl)
      = Some (Card_value (arg_min_list (\<lambda>x. indexOf SUITS (suit x)) [a, b, c]))"
    if r: "rank a = rank b \<and> rank b = rank c"
  proof -
    from r have ab: "Card_value a \<le> Card_value b \<longleftrightarrow> indexOf SUITS (suit a) \<le> indexOf SUITS (suit b)"
      and bc: "Card_value b \<le> Card_value c \<longleftrightarrow> indexOf SUITS (suit b) \<le> indexOf SUITS (suit c)"
      and ac: "Card_value a \<le> Card_value c \<longleftrightarrow> indexOf SUITS (suit a) \<le> indexOf SUITS (suit c)"
      by (simp_all add: same_rank_value)
    from r ab bc ac show ?thesis
      by (auto simp: Play_value_def new_Play_def triple_same_rank)
  qed
  ultimately show "Play_value (new_Play [a, b, c] pl)
     = (if rank a = rank b \<and> rank b = rank c
        then Some (Card_value (arg_min_list (\<lambda>x. indexOf SUITS (suit x)) [a, b, c]))
        else None)"
    by simp
qed

section \<open>The five-card kinds\<close>

lemma indexOf_from_bounds:
  "s \<noteq> [] \<Longrightarrow> - 1 \<le> i \<Longrightarrow>
     - 1 \<le> indexOf_from s p i \<and> indexOf_from s p i < i + int (length s)"
proof (induction s arbitrary: i)
  case Nil
  then show ?case by simp
next
  case (Cons c t)
  show ?case
  proof (cases "prefix p (c # t)")
    case True
    with Cons.prems show ?thesis by simp
  next
    case False
    then have p: "p \<noteq> []" by auto
    show ?thesis
    proof (cases "t = []")
      case True
      with False p Cons.prems show ?thesis by simp
    next
      case nonempty: False
      from Cons.IH[OF nonempty, of "i + 1"] Cons.prems False show ?thesis by simp
    qed
  qed
qed

lemma rank_index_bounds: "- 1 \<le> indexOf RANKS r \<and> indexOf RANKS r \<le> 12"
  using indexOf_from_bounds[of RANKS 0 r] by (simp add: indexOf_def RANKS_def)

lemma suit_index_bounds: "- 1 \<le> indexOf SUITS s \<and> indexOf SUITS s \<le> 3"
  using indexOf_from_bounds[of SUITS 0 s] by (simp add: indexOf_def SUITS_def)

lemma Card_value_bounds: "- 5 \<le> Card_value c \<and> Card_value c \<le> 51"
  using rank_index_bounds[of "rank c"] suit_index_bounds[of "suit c"]
  by (simp add: Card_value_def)

lemma straight_bounds: "straight p = Some v \<Longrightarrow> - 5 \<le> v \<and> v \<le> 51"
  using Card_value_bounds
  by (auto simp: straight_def Let_def split: if_splits)

lemma flush_bounds: "flush p = Some v \<Longrightarrow> - 14 \<le> v \<and> v \<le> 51"
  using rank_index_bounds[of "rank (cards p ! 4)"] suit_index_bounds[of "suit (cards p ! 4)"]
  by (auto simp: flush_def split: if_splits)

lemma quadro_bounds: "quadro p = Some v \<Longrightarrow> - 5 \<le> v \<and> v \<le> 51"
  using Card_value_bounds by (auto simp: quadro_def split: if_splits)

lemma fullHouse_bounds: "fullHouse p = Some v \<Longrightarrow> - 5 \<le> v \<and> v \<le> 51"
  using Card_value_bounds by (auto simp: fullHouse_def split: if_splits)

lemma truthy_Some: "truthy x \<Longrightarrow> \<exists>v. x = Some v"
  by (cases x) auto

lemma combi5_bounds: "combi5 p = (k, v) \<Longrightarrow> - 14 \<le> v \<and> v \<le> 51"
  using straight_bounds[of p] flush_bounds[of p] quadro_bounds[of p] fullHouse_bounds[of p]
  by (fastforce simp: combi5_def Let_def split: if_splits dest: truthy_Some)

text \<open>
  C6: of two five-card combinations of different kinds, both valid, the one of the higher
  kind (in the order of the enum: None, Straight, Flush, FullHouse, Quadro,
  StraightFlush) has the strictly greater value; the comparison values are below 1000 and
  the value is the number of the kind times 1000 plus the comparison value.
\<close>

theorem higher_kind_outranks:
  assumes "length (cards p) = 5" and "length (cards q) = 5"
    and "combi5 p = (kp, vp)" and "combi5 q = (kq, vq)"
    and "kp \<noteq> CNone" and "kq \<noteq> CNone" and "Combi_num kp < Combi_num kq"
  shows "vp < 1000 \<and> vq < 1000
       \<and> Play_value p = Some (Combi_num kp * 1000 + vp)
       \<and> Play_value q = Some (Combi_num kq * 1000 + vq)
       \<and> Combi_num kp * 1000 + vp < Combi_num kq * 1000 + vq"
proof -
  from combi5_bounds[OF assms(3)] combi5_bounds[OF assms(4)]
  have b: "- 14 \<le> vp" "vp \<le> 51" "- 14 \<le> vq" "vq \<le> 51" by auto
  from assms(7) have "Combi_num kp + 1 \<le> Combi_num kq" by simp
  then have "(Combi_num kp + 1) * 1000 \<le> Combi_num kq * 1000" by simp
  with b have "Combi_num kp * 1000 + vp < Combi_num kq * 1000 + vq" by simp
  moreover from assms have "Play_value p = Some (Combi_num kp * 1000 + vp)"
    "Play_value q = Some (Combi_num kq * 1000 + vq)"
    by (simp_all add: Play_value_def)
  ultimately show ?thesis using b by simp
qed

theorem higher_kind_outranks_witness:
  "length (cards (Play_fromString [''3D'', ''9D'', ''QD'', ''KD'', ''2D''] None)) = 5
   \<and> length (cards (Play_fromString [''3C'', ''3S'', ''3H'', ''4C'', ''4S''] None)) = 5
   \<and> combi5 (Play_fromString [''3D'', ''9D'', ''QD'', ''KD'', ''2D''] None) = (Flush, 51)
   \<and> combi5 (Play_fromString [''3C'', ''3S'', ''3H'', ''4C'', ''4S''] None) = (FullHouse, 2)
   \<and> Flush \<noteq> CNone \<and> FullHouse \<noteq> CNone \<and> Combi_num Flush < Combi_num FullHouse
   \<and> Play_value (Play_fromString [''3D'', ''9D'', ''QD'', ''KD'', ''2D''] None) = Some 2051
   \<and> Play_value (Play_fromString [''3C'', ''3S'', ''3H'', ''4C'', ''4S''] None) = Some 3002"
proof -
  let ?p = "Play_fromString [''3D'', ''9D'', ''QD'', ''KD'', ''2D''] None"
  let ?q = "Play_fromString [''3C'', ''3S'', ''3H'', ''4C'', ''4S''] None"
  have l: "length (cards ?p) = 5" "length (cards ?q) = 5"
    by (simp_all add: Play_fromString_def new_Play_def)
  have c: "combi5 ?p = (Flush, 51)" "combi5 ?q = (FullHouse, 2)"
    by code_simp+
  have k: "Flush \<noteq> CNone" "FullHouse \<noteq> CNone" "Combi_num Flush < Combi_num FullHouse"
    by simp_all
  from higher_kind_outranks[OF l c k]
  have "Play_value ?p = Some 2051" "Play_value ?q = Some 3002" by simp_all
  with l c k show ?thesis by blast
qed

section \<open>Straights\<close>

lemma deck_cards:
  assumes "c \<in> set Card_newDeck"
  shows "0 \<le> num c \<and> num c \<le> 12 \<and> rank c = rank_at (num c)
      \<and> 0 \<le> Card_value c \<and> (Card_value c = 0 \<longrightarrow> num c = 2)"
proof -
  have "list_all (\<lambda>c. 0 \<le> num c \<and> num c \<le> 12 \<and> rank c = rank_at (num c)
      \<and> 0 \<le> Card_value c \<and> (Card_value c = 0 \<longrightarrow> num c = 2)) Card_newDeck"
    by code_simp
  with assms show ?thesis unfolding list_all_iff by blast
qed

lemma int_range: "set (map int [a..<a + Suc k]) = {int a..int a + int k}"
proof -
  have "{a..<a + Suc k} = {a..a + k}" by auto
  then have "set (map int [a..<a + Suc k]) = int ` {a..a + k}"
    by (simp only: set_map set_upt)
  also have "\<dots> = {int a..int (a + k)}" by (rule image_int_atLeastAtMost)
  finally show ?thesis by simp
qed

lemma rank_at_inj: "inj_on rank_at {0..12}"
proof -
  have "distinct (map rank_at (map int [0..<13]))"
    by code_simp
  then have "inj_on rank_at (set (map int [0..<13]))" by (simp only: distinct_map)
  moreover have "set (map int [0..<13]) = {0..12}"
    using int_range[of 0 12] by simp
  ultimately show ?thesis by simp
qed

lemma windows:
  assumes "i + 5 \<le> length ACE_LOW"
  shows "(\<lambda>c. [c]) ` set (take 5 (drop i ACE_LOW)) = rank_at ` {int i..int i + 4}"
proof -
  have "list_all (\<lambda>i. (\<lambda>c. [c]) ` set (take 5 (drop i ACE_LOW)) = rank_at ` set (map int [i..<i + 5]))
          [0..<9]"
    by code_simp
  moreover from assms have "i \<in> set [0..<9]" by (simp add: ACE_LOW_def)
  ultimately have "(\<lambda>c. [c]) ` set (take 5 (drop i ACE_LOW)) = rank_at ` set (map int [i..<i + 5])"
    unfolding list_all_iff by blast
  moreover have "set (map int [i..<i + 5]) = {int i..int i + 4}"
    using int_range[of i 4] by simp
  ultimately show ?thesis by simp
qed

lemma ace_high_window: "{''T'', ''J'', ''Q'', ''K'', ''A''} = rank_at ` {0, 9, 10, 11, 12}"
  by (simp add: rank_at_def ACE_LOW_def insert_commute)


lemma five_elements: "length xs = 5 \<Longrightarrow> \<exists>a b c d e. xs = [a, b, c, d, e]"
  by (auto simp: numeral_eq_Suc length_Suc_conv)

lemma nums_of_cards:
  "set (sort (Set_from (map num ss))) = num ` set ss"
  "distinct (sort (Set_from (map num ss)))"
  "sorted (sort (Set_from (map num ss)))"
  "length (Set_from (map num ss)) = card (num ` set ss)"
  "length (sort (Set_from (map num ss))) = card (num ` set ss)"
proof -
  show "set (sort (Set_from (map num ss))) = num ` set ss" by (simp add: Set_from_def)
  show "distinct (sort (Set_from (map num ss)))" by (simp add: Set_from_def)
  show "sorted (sort (Set_from (map num ss)))" by simp
  have "length (remdups (rev (map num ss))) = card (set (rev (map num ss)))"
    by (rule length_remdups_card_conv)
  then show l: "length (Set_from (map num ss)) = card (num ` set ss)"
    by (simp add: Set_from_def)
  then show "length (sort (Set_from (map num ss))) = card (num ` set ss)" by simp
qed

lemma run_of_five:
  fixes a :: int
  assumes "a < b" "b < c" "c < d" "d < e"
  shows "(\<exists>m. {a, b, c, d, e} = {m..m + 4}) \<longleftrightarrow> e = a + 4"
proof
  assume "\<exists>m. {a, b, c, d, e} = {m..m + 4}"
  then obtain m where m: "{a, b, c, d, e} = {m..m + 4}" by blast
  then have "m \<in> {a, b, c, d, e}" "m + 4 \<in> {a, b, c, d, e}" by simp_all
  moreover from m have "a \<in> {m..m + 4}" "e \<in> {m..m + 4}" by blast+
  ultimately show "e = a + 4" using assms by auto
next
  assume "e = a + 4"
  with assms have "b = a + 1" "c = a + 2" "d = a + 3" by simp_all
  with \<open>e = a + 4\<close> have "{a, b, c, d, e} = {a..a + 4}" by auto
  then show "\<exists>m. {a, b, c, d, e} = {m..m + 4}" by blast
qed

lemma ace_high_of_five:
  fixes a :: int
  assumes "a < b" "b < c" "c < d" "d < e" "e \<le> 12"
  shows "{a, b, c, d, e} = {0, 9, 10, 11, 12} \<longleftrightarrow> a = 0 \<and> b = 9"
proof
  assume m: "{a, b, c, d, e} = {0, 9, 10, 11, 12}"
  then have "0 \<in> {a, b, c, d, e}" "9 \<in> {a, b, c, d, e}" by simp_all
  moreover from m have "a \<in> {0, 9, 10, 11, 12}" "b \<in> {0, 9, 10, 11, 12}" by blast+
  ultimately show "a = 0 \<and> b = 9" using assms by auto
next
  assume "a = 0 \<and> b = 9"
  with assms have "a = 0" "b = 9" "c = 10" "d = 11" "e = 12" by simp_all
  then show "{a, b, c, d, e} = {0, 9, 10, 11, 12}" by simp
qed

lemma find_num_value:
  assumes "n \<in> num ` set ss" and "set ss \<subseteq> set Card_newDeck" and "n \<noteq> 2"
  shows "truthy (map_option Card_value (find (\<lambda>c. num c = n) ss))"
proof -
  from assms(1) have "find (\<lambda>c. num c = n) ss \<noteq> None"
    by (auto simp: find_None_iff)
  then obtain c where c: "find (\<lambda>c. num c = n) ss = Some c" by blast
  then have "c \<in> set ss" "num c = n"
    by (auto simp: find_Some_iff)
  with assms(2,3) deck_cards[of c] have "Card_value c \<noteq> 0" by auto
  with c show ?thesis by simp
qed

lemma straight_truthy_iff:
  assumes len: "length ss = 5" and deck: "set ss \<subseteq> set Card_newDeck"
  shows "truthy (straight \<lparr>cards = ss, player = pl\<rparr>) \<longleftrightarrow>
           card (num ` set ss) = 5
           \<and> ((\<exists>m. num ` set ss = {m..m + 4}) \<or> num ` set ss = {0, 9, 10, 11, 12})"
proof (cases "card (num ` set ss) = 5")
  case False
  then show ?thesis by (simp add: straight_def nums_of_cards)
next
  case True
  let ?nums = "sort (Set_from (map num ss))"
  from True have "length ?nums = 5" by (simp only: nums_of_cards)
  then obtain a b c d e where n: "?nums = [a, b, c, d, e]"
    using five_elements by blast
  from nums_of_cards(2,3)[of ss] n have ord: "a < b" "b < c" "c < d" "d < e"
    by (auto simp: less_le)
  from nums_of_cards(1)[of ss] n have S: "num ` set ss = {a, b, c, d, e}" by simp
  have inr: "0 \<le> n \<and> n \<le> 12" if "n \<in> num ` set ss" for n
  proof -
    from that obtain c where "c \<in> set ss" "n = num c" by blast
    with deck deck_cards[of c] show ?thesis by blast
  qed
  have range: "0 \<le> a" "e \<le> 12"
    using inr[of a] inr[of e] S by simp_all
  have hi: "sort ([x, b, c, d, e][0 := 13]) = [b, c, d, e, 13]" for x :: int
    using ord range by simp
  have st: "straight \<lparr>cards = ss, player = pl\<rparr> =
      (if a + 4 = e then map_option Card_value (find (\<lambda>c. num c = e) ss)
       else if a = 0 then
         (if b + 4 = 13 then map_option Card_value (find (\<lambda>c. num c = 0) ss) else None)
       else None)"
    using True
    by (simp add: straight_def nums_of_cards n hi Let_def
        del: sort_key_simps list_update.simps)
  have t1: "truthy (map_option Card_value (find (\<lambda>c. num c = e) ss))" if "a + 4 = e"
    using that range S deck by (intro find_num_value) auto
  have t2: "truthy (map_option Card_value (find (\<lambda>c. num c = 0) ss))" if "a = 0"
    using that S deck by (intro find_num_value) auto
  have "truthy (straight \<lparr>cards = ss, player = pl\<rparr>) \<longleftrightarrow> e = a + 4 \<or> (a = 0 \<and> b = 9)"
    using st t1 t2 by auto
  with True S run_of_five[OF ord] ace_high_of_five[OF ord range(2)] show ?thesis
    by simp
qed

lemma is_run_ACE_LOW:
  "is_run ACE_LOW rs \<longleftrightarrow>
     distinct rs
     \<and> (\<exists>i. i + 5 \<le> length ACE_LOW \<and> set rs = (\<lambda>c. [c]) ` set (take 5 (drop i ACE_LOW)))"
proof -
  have "i \<in> set [0..<length ACE_LOW - 4] \<longleftrightarrow> i + 5 \<le> length ACE_LOW" for i
    by (auto simp: ACE_LOW_def)
  then show ?thesis unfolding is_run_def list_ex_iff by blast
qed

lemma straight_ranks_iff:
  assumes len: "length cs = 5" and deck: "set cs \<subseteq> set Card_newDeck"
  shows "straight_ranks (map rank cs) \<longleftrightarrow>
           card (num ` set cs) = 5
           \<and> ((\<exists>m. num ` set cs = {m..m + 4}) \<or> num ` set cs = {0, 9, 10, 11, 12})"
proof -
  let ?S = "num ` set cs"
  have sub: "?S \<subseteq> {0..12}" using deck deck_cards by auto
  have rk: "map rank cs = map rank_at (map num cs)"
    using deck deck_cards by (auto simp: subset_iff)
  have inj: "inj_on rank_at ?S" using rank_at_inj sub by (rule inj_on_subset)
  have "distinct (map rank_at (map num cs))
          \<longleftrightarrow> distinct (map num cs) \<and> inj_on rank_at (set (map num cs))"
    by (rule distinct_map)
  with inj have "distinct (map rank cs) \<longleftrightarrow> distinct (map num cs)"
    by (simp only: rk set_map simp_thms)
  also have "\<dots> \<longleftrightarrow> card ?S = 5"
    using len distinct_card[of "map num cs"] card_distinct[of "map num cs"] by auto
  finally have d: "distinct (map rank cs) \<longleftrightarrow> card ?S = 5" .
  have st: "set (map rank cs) = rank_at ` ?S" unfolding rk by (simp only: set_map)
  have eq: "rank_at ` ?S = rank_at ` W \<longleftrightarrow> ?S = W" if "W \<subseteq> {0..12}" for W
    using rank_at_inj sub that by (rule inj_on_image_eq_iff)
  have run: "(\<exists>i. i + 5 \<le> length ACE_LOW \<and> set (map rank cs) = (\<lambda>c. [c]) ` set (take 5 (drop i ACE_LOW)))
               \<longleftrightarrow> (\<exists>m. ?S = {m..m + 4})" if nonempty: "?S \<noteq> {}"
  proof
    assume "\<exists>i. i + 5 \<le> length ACE_LOW \<and> set (map rank cs) = (\<lambda>c. [c]) ` set (take 5 (drop i ACE_LOW))"
    then obtain i where i: "i + 5 \<le> length ACE_LOW"
      "set (map rank cs) = (\<lambda>c. [c]) ` set (take 5 (drop i ACE_LOW))" by blast
    from i(1) have w: "{int i..int i + 4} \<subseteq> {0..12}" by (auto simp: ACE_LOW_def)
    have "rank_at ` ?S = set (map rank cs)" by (rule st[symmetric])
    also have "\<dots> = (\<lambda>c. [c]) ` set (take 5 (drop i ACE_LOW))" by (rule i(2))
    also have "\<dots> = rank_at ` {int i..int i + 4}" by (rule windows[OF i(1)])
    finally have "?S = {int i..int i + 4}" using eq[OF w] by blast
    then show "\<exists>m. ?S = {m..m + 4}" by blast
  next
    assume "\<exists>m. ?S = {m..m + 4}"
    then obtain m where m: "?S = {m..m + 4}" by blast
    with sub have "m \<in> {0..12}" "m + 4 \<in> {0..12}" by auto
    then have b: "0 \<le> m" "m \<le> 8" by auto
    then have i: "nat m + 5 \<le> length ACE_LOW" by (simp add: ACE_LOW_def)
    from b have r: "{int (nat m)..int (nat m) + 4} = {m..m + 4}" by simp
    have "set (map rank cs) = rank_at ` {m..m + 4}" using st m by (simp only:)
    also have "\<dots> = (\<lambda>c. [c]) ` set (take 5 (drop (nat m) ACE_LOW))"
      using windows[OF i] by (simp only: r)
    finally have "set (map rank cs) = (\<lambda>c. [c]) ` set (take 5 (drop (nat m) ACE_LOW))" .
    with i show "\<exists>i. i + 5 \<le> length ACE_LOW \<and> set (map rank cs) = (\<lambda>c. [c]) ` set (take 5 (drop i ACE_LOW))"
      by blast
  qed
  have ace: "set (map rank cs) = {''T'', ''J'', ''Q'', ''K'', ''A''} \<longleftrightarrow> ?S = {0, 9, 10, 11, 12}"
    unfolding st ace_high_window by (rule eq) simp
  have ne: "?S \<noteq> {}" using len by auto
  show ?thesis
    unfolding straight_ranks_def is_run_ACE_LOW d run[OF ne] ace by blast
qed

lemma combi5_straight: "fst (combi5 p) \<in> {Straight, StraightFlush} \<longleftrightarrow> truthy (straight p)"
  by (simp add: combi5_def Let_def)

lemma wraparound_nums_set:
  assumes "set (map rank cs) = {''J'', ''Q'', ''K'', ''A'', ''2''}"
  shows "num ` set cs = {10, 11, 12, 0, 1}"
proof -
  have "num ` set cs = (\<lambda>r. (indexOf RANKS r + 2) mod 13) ` set (map rank cs)"
    by (simp add: num_def image_image)
  also have "\<dots> = {10, 11, 12, 0, 1}"
    unfolding assms by (simp add: indexOf_def RANKS_def)
  finally show ?thesis .
qed

lemma deck_flush_value:
  assumes "c \<in> set Card_newDeck" and "Card_value c \<noteq> 0"
  shows "indexOf SUITS (suit c) * 13 + indexOf RANKS (rank c) \<noteq> 0"
proof -
  have "list_all (\<lambda>c. Card_value c \<noteq> 0 \<longrightarrow>
      indexOf SUITS (suit c) * 13 + indexOf RANKS (rank c) \<noteq> 0) Card_newDeck"
    by code_simp
  with assms show ?thesis unfolding list_all_iff by blast
qed

lemma sorted_last_max:
  assumes "length xs = 5" and "c \<in> set xs"
  shows "f c \<le> f (sort_key f xs ! 4)"
proof -
  define ys where "ys = sort_key f xs"
  have l: "length ys = 5" and s: "sorted (map f ys)" and m: "c \<in> set ys"
    using assms by (simp_all add: ys_def)
  from m obtain i where i: "i < length ys" "ys ! i = c" by (metis in_set_conv_nth)
  from i(1) l have "i \<le> 4" "4 < length (map f ys)" by simp_all
  with s have "map f ys ! i \<le> map f ys ! 4" by (rule sorted_nth_mono)
  with i l have "f c \<le> f (ys ! 4)" by simp
  then show ?thesis by (simp only: ys_def)
qed

lemma flush_truthy_iff:
  assumes len: "length cs = 5" and deck: "set cs \<subseteq> set Card_newDeck"
    and five: "card (num ` set cs) = 5"
  shows "truthy (flush \<lparr>cards = sort_key Card_value cs, player = pl\<rparr>) \<longleftrightarrow> same_suit cs"
proof -
  let ?ss = "sort_key Card_value cs"
  have "\<exists>c\<in>set cs. num c \<noteq> 2"
  proof (rule ccontr)
    assume "\<not> (\<exists>c\<in>set cs. num c \<noteq> 2)"
    then have "num ` set cs \<subseteq> {2}" by auto
    then have "card (num ` set cs) \<le> card {2::int}" by (intro card_mono) simp_all
    with five show False by simp
  qed
  then obtain c where c: "c \<in> set cs" "num c \<noteq> 2" by blast
  with deck deck_cards[of c] have "0 < Card_value c" by force
  with sorted_last_max[OF len c(1), of Card_value] have pos: "Card_value (?ss ! 4) \<noteq> 0" by simp
  have "?ss ! 4 \<in> set ?ss" using len by (intro nth_mem) simp
  with deck have "?ss ! 4 \<in> set Card_newDeck" by auto
  from deck_flush_value[OF this pos]
  have v: "indexOf SUITS (suit (?ss ! 4)) * 13 + indexOf RANKS (rank (?ss ! 4)) \<noteq> 0" .
  define x where "x = ?ss ! 0"
  have "?ss ! 0 \<in> set ?ss" using len by (intro nth_mem) simp
  then have z: "x \<in> set cs" by (simp add: x_def)
  have "(\<forall>c\<in>set cs. suit c = suit x) \<longleftrightarrow> (\<forall>a\<in>set cs. \<forall>b\<in>set cs. suit a = suit b)"
    using z by metis
  then have "list_all (\<lambda>c. suit c = suit (?ss ! 0)) ?ss \<longleftrightarrow> same_suit cs"
    unfolding same_suit_def list_all_iff x_def by (simp only: set_sort)
  with v show ?thesis by (simp add: flush_def)
qed

lemma combi5_straight_flush:
  "fst (combi5 p) = StraightFlush \<longleftrightarrow> truthy (straight p) \<and> truthy (flush p)"
  by (simp add: combi5_def Let_def)

lemma wraparound_not_run:
  fixes S :: "int set"
  assumes "S = {10, 11, 12, 0, 1}"
  shows "\<not> ((\<exists>m. S = {m..m + 4}) \<or> S = {0, 9, 10, 11, 12})"
proof
  assume "(\<exists>m. S = {m..m + 4}) \<or> S = {0, 9, 10, 11, 12}"
  then show False
  proof
    assume "\<exists>m. S = {m..m + 4}"
    then obtain m where m: "S = {m..m + 4}" by blast
    from assms have "0 \<in> S" "12 \<in> S" by simp_all
    with m show False by simp
  next
    assume "S = {0, 9, 10, 11, 12}"
    moreover from assms have "1 \<in> S" by simp
    ultimately show False by simp
  qed
qed

text \<open>
  C1, amended: five cards of the deck are classified as a straight, that is as Straight
  or, exactly when all five are also of the same suit, as StraightFlush, exactly when their
  five ranks are pairwise different and are five consecutive ranks in the ordering in
  which the Ace is lowest and the King is highest, or are the Ace-high run T, J, Q, K, A;
  such a set is never invalid. Five cards of the ranks J, Q, K, A, 2 are not classified as
  a straight.
\<close>

theorem straight_iff_poker_run:
  assumes "length cs = 5" and "set cs \<subseteq> set Card_newDeck"
  shows "(fst (combi5 (new_Play cs pl)) \<in> {Straight, StraightFlush}
            \<longleftrightarrow> straight_ranks (map rank cs))
       \<and> (fst (combi5 (new_Play cs pl)) = StraightFlush
            \<longleftrightarrow> straight_ranks (map rank cs) \<and> same_suit cs)
       \<and> (straight_ranks (map rank cs) \<longrightarrow> Play_value (new_Play cs pl) \<noteq> None)
       \<and> (set (map rank cs) = {''J'', ''Q'', ''K'', ''A'', ''2''} \<longrightarrow>
            fst (combi5 (new_Play cs pl)) \<notin> {Straight, StraightFlush})"
proof -
  let ?ss = "sort_key Card_value cs"
  let ?nums = "card (num ` set cs) = 5
           \<and> ((\<exists>m. num ` set cs = {m..m + 4}) \<or> num ` set cs = {0, 9, 10, 11, 12})"
  have p: "new_Play cs pl = \<lparr>cards = ?ss, player = pl\<rparr>" by (simp add: new_Play_def)
  have ss: "length ?ss = 5" "set ?ss \<subseteq> set Card_newDeck" "set ?ss = set cs"
    using assms by simp_all
  have tr: "truthy (straight \<lparr>cards = ?ss, player = pl\<rparr>) \<longleftrightarrow> ?nums"
    using straight_truthy_iff[OF ss(1,2), of pl] by (simp only: ss(3))
  have "fst (combi5 (new_Play cs pl)) \<in> {Straight, StraightFlush}
          \<longleftrightarrow> truthy (straight \<lparr>cards = ?ss, player = pl\<rparr>)"
    unfolding p by (rule combi5_straight)
  with tr have code: "fst (combi5 (new_Play cs pl)) \<in> {Straight, StraightFlush} \<longleftrightarrow> ?nums"
    by (simp only:)
  have spec: "straight_ranks (map rank cs) \<longleftrightarrow> ?nums"
    using assms by (rule straight_ranks_iff)
  from code spec have main: "fst (combi5 (new_Play cs pl)) \<in> {Straight, StraightFlush}
            \<longleftrightarrow> straight_ranks (map rank cs)" by (simp only:)
  have sf: "fst (combi5 (new_Play cs pl)) = StraightFlush
            \<longleftrightarrow> straight_ranks (map rank cs) \<and> same_suit cs"
  proof (cases "straight_ranks (map rank cs)")
    case True
    with spec have "card (num ` set cs) = 5" by blast
    from flush_truthy_iff[OF assms this, of pl] True spec tr show ?thesis
      unfolding p combi5_straight_flush by blast
  next
    case False
    with spec tr show ?thesis
      unfolding p combi5_straight_flush by blast
  qed
  have valid: "straight_ranks (map rank cs) \<longrightarrow> Play_value (new_Play cs pl) \<noteq> None"
  proof
    assume "straight_ranks (map rank cs)"
    with main have "fst (combi5 (new_Play cs pl)) \<in> {Straight, StraightFlush}" by (simp only:)
    then have "fst (combi5 (new_Play cs pl)) \<noteq> CNone" by auto
    with assms(1) show "Play_value (new_Play cs pl) \<noteq> None"
      by (cases "combi5 (new_Play cs pl)") (simp add: Play_value_def p)
  qed
  have wrap: "set (map rank cs) = {''J'', ''Q'', ''K'', ''A'', ''2''} \<longrightarrow>
            fst (combi5 (new_Play cs pl)) \<notin> {Straight, StraightFlush}"
  proof
    assume "set (map rank cs) = {''J'', ''Q'', ''K'', ''A'', ''2''}"
    then have "num ` set cs = {10, 11, 12, 0, 1}" by (rule wraparound_nums_set)
    then have "\<not> ((\<exists>m. num ` set cs = {m..m + 4}) \<or> num ` set cs = {0, 9, 10, 11, 12})"
      by (rule wraparound_not_run)
    then have "\<not> ?nums" by (simp only: simp_thms)
    with code show "fst (combi5 (new_Play cs pl)) \<notin> {Straight, StraightFlush}" by blast
  qed
  from main sf valid wrap show ?thesis by (intro conjI)
qed

text \<open>
  C1 as stated fails: J, Q, K, A, 2 of mixed suits is no combination at all, while
  A, 2, 3, 4, 5, which is not a run from 3 up to K, is a straight valued by its 5.
\<close>

theorem wraparound_run_is_invalid:
  "Play_value (Play_fromString [''JC'', ''QS'', ''KH'', ''AD'', ''2C''] None) = None
   \<and> combi5 (Play_fromString [''JC'', ''QS'', ''KH'', ''AD'', ''2C''] None) = (CNone, 0)
   \<and> combi5 (Play_fromString [''AC'', ''2S'', ''3H'', ''4D'', ''5C''] None) = (Straight, 8)"
  by code_simp

theorem straight_iff_poker_run_witness:
  "length (map Card_fromString [''TC'', ''JS'', ''QH'', ''KD'', ''AC'']) = 5
   \<and> set (map Card_fromString [''TC'', ''JS'', ''QH'', ''KD'', ''AC'']) \<subseteq> set Card_newDeck
   \<and> straight_ranks (map rank (map Card_fromString [''TC'', ''JS'', ''QH'', ''KD'', ''AC'']))
   \<and> fst (combi5 (new_Play (map Card_fromString [''TC'', ''JS'', ''QH'', ''KD'', ''AC'']) None))
        \<in> {Straight, StraightFlush}
   \<and> Play_value (new_Play (map Card_fromString [''TC'', ''JS'', ''QH'', ''KD'', ''AC'']) None)
        \<noteq> None"
proof -
  let ?cs = "map Card_fromString [''TC'', ''JS'', ''QH'', ''KD'', ''AC'']"
  have l: "length ?cs = 5" by simp
  have d: "set ?cs \<subseteq> set Card_newDeck" by code_simp
  have r: "straight_ranks (map rank ?cs)" by code_simp
  from straight_iff_poker_run[OF l d, of None] r
  have "fst (combi5 (new_Play ?cs None)) \<in> {Straight, StraightFlush}"
    "Play_value (new_Play ?cs None) \<noteq> None" by blast+
  with l d r show ?thesis by blast
qed

section \<open>Removing cards from a hand\<close>

text \<open>
  What one splice of the discard loop does, without index arithmetic: a string that is in
  the hand is removed at its first occurrence; for a string that is not, the index is
  \<open>-1\<close> and the splice removes the last card of the hand, or nothing from an empty hand.
\<close>

lemma Array_indexOf_from_absent: "x \<notin> set xs \<Longrightarrow> Array_indexOf_from xs x i = - 1"
  by (induction xs arbitrary: i) auto

lemma Array_indexOf_from_present:
  "x \<in> set xs \<Longrightarrow>
     \<exists>k<length xs. Array_indexOf_from xs x i = i + int k \<and> xs ! k = x
        \<and> take k xs @ drop (Suc k) xs = remove1 x xs"
proof (induction xs arbitrary: i)
  case Nil
  then show ?case by simp
next
  case (Cons y ys)
  show ?case
  proof (cases "y = x")
    case True
    then show ?thesis by (intro exI[of _ 0]) simp
  next
    case False
    with Cons.prems have "x \<in> set ys" by simp
    from Cons.IH[OF this, of "i + 1"] obtain k where k: "k < length ys"
      "Array_indexOf_from ys x (i + 1) = i + 1 + int k" "ys ! k = x"
      "take k ys @ drop (Suc k) ys = remove1 x ys" by blast
    with False show ?thesis by (intro exI[of _ "Suc k"]) simp
  qed
qed

lemma splice1_found:
  assumes "x \<in> set hand"
  shows "splice1 hand (Array_indexOf hand x) = ([x], remove1 x hand)"
proof -
  from Array_indexOf_from_present[OF assms, of 0] obtain k where k: "k < length hand"
    "Array_indexOf hand x = int k" "hand ! k = x"
    "take k hand @ drop (Suc k) hand = remove1 x hand"
    by (auto simp: Array_indexOf_def)
  have "take (Suc 0) (drop k hand) = [hand ! k]"
    using k(1) by (metis Cons_nth_drop_Suc take0 take_Suc_Cons)
  moreover have "nat (int k + 1) = Suc k" by simp
  ultimately show ?thesis using k
    by (simp add: splice1_def Let_def min_def)
qed

lemma splice1_not_found:
  assumes "x \<notin> set hand"
  shows "splice1 hand (Array_indexOf hand x)
           = (if hand = [] then ([], []) else ([last hand], butlast hand))"
proof (cases "hand = []")
  case True
  then show ?thesis by (simp add: splice1_def Array_indexOf_def)
next
  case False
  then have len: "0 < length hand" by simp
  have i: "Array_indexOf hand x = - 1"
    using assms by (simp add: Array_indexOf_def Array_indexOf_from_absent)
  have n: "nat (int (length hand) - 1) = length hand - Suc 0" by simp
  have d: "drop (length hand - Suc 0) hand = [last hand]"
    using False by (metis One_nat_def append_butlast_last_id append_eq_conv_conj length_butlast)
  have t: "take (length hand - Suc 0) hand = butlast hand"
    by (simp add: butlast_conv_take)
  from len have m: "max (int (length hand) - 1) 0 = int (length hand) - 1" by simp
  from len have mi: "min 1 (int (length hand) - (int (length hand) - 1)) = (1::int)" by simp
  show ?thesis using False
    by (simp add: splice1_def Let_def i m mi n d t)
qed

lemma discard_cards_Cons:
  "discard_cards (c # cs) hand =
     (if c \<in> set hand then
        (case discard_cards cs (remove1 c hand) of (ds, h) \<Rightarrow> (Some c # ds, h))
      else if hand = [] then
        (case discard_cards cs [] of (ds, h) \<Rightarrow> (None # ds, h))
      else
        (case discard_cards cs (butlast hand) of (ds, h) \<Rightarrow> (Some (last hand) # ds, h)))"
  by (simp add: splice1_found splice1_not_found pop_def)

lemmas discard_cards_code [code] = discard_cards.simps(1) discard_cards_Cons

section \<open>The next seat\<close>

lemma getNext_loop_found:
  assumes "i \<le> k"
    and "(playOrderPos ctx + k) mod numPlayers ctx \<notin> set (winners G)"
    and "\<forall>j. i \<le> j \<and> j < k \<longrightarrow> (playOrderPos ctx + j) mod numPlayers ctx \<in> set (winners G)"
  shows "getNext_loop G ctx i = Some ((playOrderPos ctx + k) mod numPlayers ctx)"
  using assms
proof (induction "k - i" arbitrary: i)
  case 0
  then have "i = k" by simp
  with 0 show ?case
    by (subst getNext_loop.simps) simp
next
  case (Suc d)
  then have lt: "i < k" by simp
  with Suc.prems have "(playOrderPos ctx + i) mod numPlayers ctx \<in> set (winners G)"
    by simp
  then have "getNext_loop G ctx i = getNext_loop G ctx (i + 1)"
    by (subst getNext_loop.simps) simp
  moreover have "getNext_loop G ctx (i + 1) = Some ((playOrderPos ctx + k) mod numPlayers ctx)"
    using Suc.hyps Suc.prems lt by (intro Suc.hyps(1)) auto
  ultimately show ?case by simp
qed

lemma getNext_loop_Some:
  assumes "getNext_loop G ctx i = Some y"
  shows "y \<notin> set (winners G) \<and> (\<exists>k\<ge>i. y = (playOrderPos ctx + k) mod numPlayers ctx)"
proof (rule getNext_loop.raw_induct[OF _ assms])
  fix loop G ctx i y
  assume IH: "\<And>G ctx i y. loop G ctx i = Some y \<Longrightarrow>
      y \<notin> set (winners G) \<and> (\<exists>k\<ge>i. y = (playOrderPos ctx + k) mod numPlayers ctx)"
    and body: "(let nextPlayer = (playOrderPos ctx + i) mod numPlayers ctx
      in if nextPlayer \<in> set (winners G) then loop G ctx (i + 1) else Some nextPlayer) = Some y"
  show "y \<notin> set (winners G) \<and> (\<exists>k\<ge>i. y = (playOrderPos ctx + k) mod numPlayers ctx)"
  proof (cases "(playOrderPos ctx + i) mod numPlayers ctx \<in> set (winners G)")
    case True
    with body have "loop G ctx (i + 1) = Some y" by (simp add: Let_def)
    then have "y \<notin> set (winners G) \<and> (\<exists>k\<ge>i + 1. y = (playOrderPos ctx + k) mod numPlayers ctx)"
      by (rule IH)
    then obtain k where "y \<notin> set (winners G)" "i + 1 \<le> k"
      "y = (playOrderPos ctx + k) mod numPlayers ctx" by blast
    moreover from this have "i \<le> k" by simp
    ultimately show ?thesis by blast
  next
    case False
    with body show ?thesis by (auto simp: Let_def)
  qed
qed

lemma residue_reached:
  fixes n :: nat
  assumes "s < n"
  shows "\<exists>k\<ge>1. k \<le> n \<and> (pos + k) mod n = s"
proof -
  define k where "k = (s + n - (pos mod n) - 1) mod n + 1"
  have n: "0 < n" using assms by simp
  have "k \<ge> 1" "k \<le> n" using n by (simp_all add: k_def Suc_leI)
  moreover have "(pos + k) mod n = s"
  proof -
    let ?r = "pos mod n"
    have rn: "?r < n" using n by simp
    have "(pos + k) mod n = (?r + k) mod n" by (simp add: mod_add_left_eq)
    also have "\<dots> = (?r + 1 + (s + n - ?r - 1) mod n) mod n" by (simp add: k_def add.commute add.left_commute)
    also have "\<dots> = (?r + 1 + (s + n - ?r - 1)) mod n" by (rule mod_add_right_eq)
    also have "?r + 1 + (s + n - ?r - 1) = s + n" using rn by simp
    also have "(s + n) mod n = s" using assms by simp
    finally show ?thesis .
  qed
  ultimately show ?thesis by blast
qed


lemma getNext_first:
  assumes n: "numPlayers ctx = n" and s: "s < n" "s \<notin> set (winners G)"
  shows "\<exists>k\<in>{1..n}. getNext G ctx = Some ((playOrderPos ctx + k) mod n)
           \<and> (playOrderPos ctx + k) mod n \<notin> set (winners G)
           \<and> (\<forall>j\<in>{1..<k}. (playOrderPos ctx + j) mod n \<in> set (winners G))"
proof -
  let ?free = "\<lambda>k. 1 \<le> k \<and> (playOrderPos ctx + k) mod n \<notin> set (winners G)"
  from residue_reached[OF s(1), of "playOrderPos ctx"] s(2)
  obtain k1 where k1: "?free k1" "k1 \<le> n" by auto
  define k where "k = (LEAST k. ?free k)"
  have fk: "?free k" unfolding k_def using k1(1) by (rule LeastI)
  have "k \<le> k1" unfolding k_def using k1(1) by (rule Least_le)
  with k1(2) have kn: "k \<le> n" by simp
  have below: "\<forall>j. 1 \<le> j \<and> j < k \<longrightarrow> (playOrderPos ctx + j) mod n \<in> set (winners G)"
    using not_less_Least[of _ ?free] unfolding k_def by blast
  have "getNext_loop G ctx 1 = Some ((playOrderPos ctx + k) mod numPlayers ctx)"
    using fk below by (intro getNext_loop_found) (simp_all add: n)
  then have "getNext G ctx = Some ((playOrderPos ctx + k) mod n)"
    by (simp add: getNext_def n)
  with fk kn below show ?thesis by (intro bexI[of _ k]) auto
qed

lemma getNext_diverges:
  assumes n: "numPlayers ctx = n" "0 < n" and all: "\<forall>s<n. s \<in> set (winners G)"
  shows "getNext G ctx = None"
proof (cases "getNext G ctx")
  case None
  then show ?thesis .
next
  case (Some y)
  then have "getNext_loop G ctx 1 = Some y" by (simp add: getNext_def)
  from getNext_loop_Some[OF this] obtain k where
    y: "y \<notin> set (winners G)" "y = (playOrderPos ctx + k) mod n" by (auto simp: n)
  from y(2) n(2) have "y < n" by simp
  with all y(1) show ?thesis by blast
qed

lemma getNext_not_winner: "getNext G ctx = Some y \<Longrightarrow> y \<notin> set (winners G)"
  using getNext_loop_Some[of G ctx 1 y] by (simp add: getNext_def)

text \<open>
  C10: with four players and a seat that is not among the winners, \<open>getNext\<close> returns,
  and what it returns is the first seat after the current position, walking the rotation
  forward (at most four steps, the fourth being the current position itself), that is not
  among the winners. When all four seats are among the winners it does not return.
\<close>

theorem getNext_first_active_seat:
  assumes "numPlayers ctx = NUM_PLAYERS"
  shows "((\<exists>s<NUM_PLAYERS. s \<notin> set (winners G)) \<longrightarrow>
            (\<exists>k\<in>{1..NUM_PLAYERS}.
               getNext G ctx = Some ((playOrderPos ctx + k) mod NUM_PLAYERS)
               \<and> (playOrderPos ctx + k) mod NUM_PLAYERS \<notin> set (winners G)
               \<and> (\<forall>j\<in>{1..<k}. (playOrderPos ctx + j) mod NUM_PLAYERS \<in> set (winners G))))
       \<and> ((\<forall>s<NUM_PLAYERS. s \<in> set (winners G)) \<longrightarrow> getNext G ctx = None)"
proof (intro conjI impI)
  assume "\<exists>s<NUM_PLAYERS. s \<notin> set (winners G)"
  then obtain s where "s < NUM_PLAYERS" "s \<notin> set (winners G)" by blast
  with assms show "\<exists>k\<in>{1..NUM_PLAYERS}.
               getNext G ctx = Some ((playOrderPos ctx + k) mod NUM_PLAYERS)
               \<and> (playOrderPos ctx + k) mod NUM_PLAYERS \<notin> set (winners G)
               \<and> (\<forall>j\<in>{1..<k}. (playOrderPos ctx + j) mod NUM_PLAYERS \<in> set (winners G))"
    by (rule getNext_first)
next
  assume "\<forall>s<NUM_PLAYERS. s \<in> set (winners G)"
  with assms show "getNext G ctx = None"
    by (intro getNext_diverges[of ctx NUM_PLAYERS]) (simp_all add: NUM_PLAYERS_def)
qed

theorem getNext_first_active_seat_witness:
  "numPlayers (seat_ctx 0) = NUM_PLAYERS
   \<and> (\<exists>s<NUM_PLAYERS. s \<notin> set (winners (example_led\<lparr>winners := [1, 2]\<rparr>)))
   \<and> getNext (example_led\<lparr>winners := [1, 2]\<rparr>) (seat_ctx 0) = Some 3
   \<and> set (winners (example_led\<lparr>winners := [1, 2, 3, 0]\<rparr>)) = {0..<NUM_PLAYERS}
   \<and> getNext (example_led\<lparr>winners := [1, 2, 3, 0]\<rparr>) (seat_ctx 0) = None"
proof -
  let ?G = "example_led\<lparr>winners := [1, 2]\<rparr>"
  let ?H = "example_led\<lparr>winners := [1, 2, 3, 0]\<rparr>"
  have c: "numPlayers (seat_ctx 0) = NUM_PLAYERS" by (simp add: seat_ctx_def)
  have a: "\<exists>s<NUM_PLAYERS. s \<notin> set (winners ?G)"
    by (rule exI[of _ 0]) (simp add: NUM_PLAYERS_def)
  have b: "set (winners ?H) = {0..<NUM_PLAYERS}"
    by (auto simp: NUM_PLAYERS_def)
  then have b': "\<forall>s<NUM_PLAYERS. s \<in> set (winners ?H)" by simp
  have n: "getNext ?H (seat_ctx 0) = None"
    using getNext_first_active_seat[OF c, of ?H] b' by blast
  from getNext_first_active_seat[OF c, of ?G] a
  obtain k where k: "k \<in> {1..NUM_PLAYERS}"
    "getNext ?G (seat_ctx 0) = Some ((playOrderPos (seat_ctx 0) + k) mod NUM_PLAYERS)"
    "(playOrderPos (seat_ctx 0) + k) mod NUM_PLAYERS \<notin> set (winners ?G)"
    "\<forall>j\<in>{1..<k}. (playOrderPos (seat_ctx 0) + j) mod NUM_PLAYERS \<in> set (winners ?G)"
    by blast
  from k(1) have "k = 1 \<or> k = 2 \<or> k = 3 \<or> k = 4" by (auto simp: NUM_PLAYERS_def)
  with k(3) have "k = 3 \<or> k = 4" by (auto simp: seat_ctx_def NUM_PLAYERS_def)
  moreover have "k \<noteq> 4"
  proof
    assume "k = 4"
    with k(4) have "(playOrderPos (seat_ctx 0) + 3) mod NUM_PLAYERS \<in> set (winners ?G)"
      by simp
    then show False by (simp add: seat_ctx_def NUM_PLAYERS_def)
  qed
  ultimately have "k = 3" by simp
  with k(2) have "getNext ?G (seat_ctx 0) = Some 3"
    by (simp add: seat_ctx_def NUM_PLAYERS_def)
  with c a b n show ?thesis by blast
qed

section \<open>Passing\<close>

lemma pass_cases:
  "pass G ctx =
     (case lastPlay G of None \<Rightarrow> Some (INVALID_MOVE, G)
      | Some lp \<Rightarrow> map_option (\<lambda>n. (Done, if player lp = Some n then G\<lparr>lastPlay := None\<rparr> else G))
          (getNext G ctx))"
  by (simp add: pass_def split: option.splits)

text \<open>
  C9: \<open>pass\<close> answers \<^verbatim>\<open>INVALID_MOVE\<close> exactly when there is no last play. When it is
  accepted, the last play is cleared exactly when the next seat after the passing one is
  the owner of the last play, and is otherwise kept; hands, remaining counts, discard
  history, winners and \<open>hasStarted\<close> are as before. With a last play on the table and a
  seat that has not won, the move does return, accepted.
\<close>

theorem pass_rejects_iff_no_lastPlay:
  "((\<exists>G'. pass G ctx = Some (INVALID_MOVE, G')) \<longleftrightarrow> lastPlay G = None)
   \<and> (pass G ctx = Some (Done, G') \<longrightarrow>
        (\<exists>lp n. lastPlay G = Some lp \<and> getNext G ctx = Some n
           \<and> (lastPlay G' = None \<longleftrightarrow> player lp = Some n)
           \<and> (player lp \<noteq> Some n \<longrightarrow> lastPlay G' = lastPlay G)
           \<and> players G' = players G \<and> remaining G' = remaining G
           \<and> discarded G' = discarded G \<and> winners G' = winners G
           \<and> hasStarted G' = hasStarted G \<and> firstTurn G' = firstTurn G))
   \<and> (lastPlay G \<noteq> None \<and> numPlayers ctx = NUM_PLAYERS
        \<and> (\<exists>s<NUM_PLAYERS. s \<notin> set (winners G)) \<longrightarrow> (\<exists>G'. pass G ctx = Some (Done, G')))"
proof (intro conjI impI)
  show "(\<exists>G'. pass G ctx = Some (INVALID_MOVE, G')) \<longleftrightarrow> lastPlay G = None"
    by (auto simp: pass_cases split: option.splits)
next
  assume "pass G ctx = Some (Done, G')"
  then obtain lp n where lp: "lastPlay G = Some lp" and n: "getNext G ctx = Some n"
    and G': "G' = (if player lp = Some n then G\<lparr>lastPlay := None\<rparr> else G)"
    by (auto simp: pass_cases split: option.splits)
  from lp G' have "(lastPlay G' = None \<longleftrightarrow> player lp = Some n)
           \<and> (player lp \<noteq> Some n \<longrightarrow> lastPlay G' = lastPlay G)
           \<and> players G' = players G \<and> remaining G' = remaining G
           \<and> discarded G' = discarded G \<and> winners G' = winners G
           \<and> hasStarted G' = hasStarted G \<and> firstTurn G' = firstTurn G"
    by simp
  with lp n show "\<exists>lp n. lastPlay G = Some lp \<and> getNext G ctx = Some n
           \<and> (lastPlay G' = None \<longleftrightarrow> player lp = Some n)
           \<and> (player lp \<noteq> Some n \<longrightarrow> lastPlay G' = lastPlay G)
           \<and> players G' = players G \<and> remaining G' = remaining G
           \<and> discarded G' = discarded G \<and> winners G' = winners G
           \<and> hasStarted G' = hasStarted G \<and> firstTurn G' = firstTurn G"
    by (intro exI[of _ lp] exI[of _ n]) simp
next
  assume h: "lastPlay G \<noteq> None \<and> numPlayers ctx = NUM_PLAYERS
        \<and> (\<exists>s<NUM_PLAYERS. s \<notin> set (winners G))"
  then obtain s where "s < NUM_PLAYERS" "s \<notin> set (winners G)" by blast
  with h obtain n where "getNext G ctx = Some n"
    using getNext_first[of ctx NUM_PLAYERS s G] by blast
  with h show "\<exists>G'. pass G ctx = Some (Done, G')"
    by (auto simp: pass_cases split: option.splits)
qed

theorem pass_rejects_iff_no_lastPlay_witness:
  "pass example_deal (seat_ctx 0) = Some (INVALID_MOVE, example_deal)
   \<and> lastPlay example_deal = None
   \<and> pass example_led (seat_ctx 3) = Some (Done, example_led\<lparr>lastPlay := None\<rparr>)
   \<and> (\<exists>lp n. lastPlay example_led = Some lp \<and> getNext example_led (seat_ctx 3) = Some n
         \<and> player lp = Some n
         \<and> players (example_led\<lparr>lastPlay := None\<rparr>) = players example_led)"
proof -
  have r: "pass example_deal (seat_ctx 0) = Some (INVALID_MOVE, example_deal)"
    by code_simp
  have a: "pass example_led (seat_ctx 3) = Some (Done, example_led\<lparr>lastPlay := None\<rparr>)"
    by code_simp
  from r pass_rejects_iff_no_lastPlay[of example_deal "seat_ctx 0"]
  have "lastPlay example_deal = None" by blast
  moreover from a pass_rejects_iff_no_lastPlay[of example_led "seat_ctx 3" "example_led\<lparr>lastPlay := None\<rparr>"]
  have "\<exists>lp n. lastPlay example_led = Some lp \<and> getNext example_led (seat_ctx 3) = Some n
         \<and> player lp = Some n
         \<and> players (example_led\<lparr>lastPlay := None\<rparr>) = players example_led"
    by auto
  ultimately show ?thesis using r a by blast
qed

section \<open>Playing cards\<close>

lemma toString_fromString_lowest:
  "Card_toString (Card_fromString s) = Card_toString Card_lowest \<longleftrightarrow> Card_fromString s = Card_lowest"
proof (cases s rule: Card_fromString.cases)
  case 1
  then show ?thesis by (simp add: Card_toString_def Card_lowest_def js_undefined_def)
next
  case (2 r)
  then show ?thesis by (simp add: Card_toString_def Card_lowest_def js_undefined_def)
next
  case (3 r s' t)
  then show ?thesis by (auto simp: Card_toString_def Card_lowest_def)
qed

lemma cards_new_Play [simp]: "set (cards (new_Play cs p)) = set cs"
  "length (cards (new_Play cs p)) = length cs"
  "player (new_Play cs p) = p"
  by (simp_all add: new_Play_def)

lemma playString_set:
  "set (map Card_toString (cards (Play_fromString cs p)))
     = (\<lambda>s. Card_toString (Card_fromString s)) ` set cs"
  by (simp add: Play_fromString_def image_image)

lemma lowest_in_playString:
  "Card_toString Card_lowest \<in> set (map Card_toString (cards (Play_fromString cs p)))
     \<longleftrightarrow> Card_lowest \<in> set (map Card_fromString cs)"
proof -
  have "Card_toString Card_lowest \<in> set (map Card_toString (cards (Play_fromString cs p)))
     \<longleftrightarrow> (\<exists>s\<in>set cs. Card_toString (Card_fromString s) = Card_toString Card_lowest)"
    unfolding playString_set by (simp add: image_iff eq_commute)
  also have "\<dots> \<longleftrightarrow> (\<exists>s\<in>set cs. Card_fromString s = Card_lowest)"
    by (simp add: toString_fromString_lowest)
  also have "\<dots> \<longleftrightarrow> Card_lowest \<in> set (map Card_fromString cs)"
    by (simp add: image_iff eq_commute)
  finally show ?thesis .
qed

lemma play_commit_fields [simp]:
  "hasStarted (play_commit G ctx pl ps hand) = hasStarted G"
  "firstTurn (play_commit G ctx pl ps hand) = firstTurn G"
  by (simp_all add: play_commit_def Let_def split: prod.splits)

lemma play_Done_or_unchanged: "fst (play G ctx cs) = Done \<or> snd (play G ctx cs) = G"
  by (simp add: play_def Let_def split: option.split)

lemma play_rejected_unchanged: "fst (play G ctx cs) \<noteq> Done \<Longrightarrow> snd (play G ctx cs) = G"
  using play_Done_or_unchanged[of G ctx cs] by blast

lemma play_single_value:
  "Play_value (Play_fromString [s] p) = Some (Card_value (Card_fromString s))"
  by (simp add: Play_value_def Play_fromString_def new_Play_def)

lemma lowest_value: "Card_value (Card_fromString ''3C'') = 0"
  by (simp add: Card_value_def indexOf_def RANKS_def SUITS_def)

text \<open>
  C7: with no last play and the round not started, a submission none of whose cards is 3C
  is not accepted and leaves the state as it was (it is answered with \<^verbatim>\<open>INVALID_MOVE\<close>
  whenever the seat has a hand); the single card 3C, valued 0 by the evaluator, is accepted
  from a seat that holds it; and every accepted play leaves \<open>hasStarted\<close> true.
\<close>

theorem first_play_needs_lowest_card:
  assumes "lastPlay G = None" and "\<not> hasStarted G"
  shows "(Card_lowest \<notin> set (map Card_fromString cs) \<longrightarrow>
            fst (play G ctx cs) \<noteq> Done \<and> snd (play G ctx cs) = G
            \<and> (map_of (players G) (currentPlayer ctx) \<noteq> None \<longrightarrow> fst (play G ctx cs) = INVALID_MOVE))
       \<and> (\<forall>hand. map_of (players G) (currentPlayer ctx) = Some hand \<and> ''3C'' \<in> set hand \<longrightarrow>
            Play_value (Play_fromString [''3C''] (Some (currentPlayer ctx))) = Some 0
            \<and> fst (play G ctx [''3C'']) = Done)
       \<and> (fst (play G ctx cs) = Done \<longrightarrow> hasStarted (snd (play G ctx cs)))"
proof (intro conjI impI allI)
  assume no: "Card_lowest \<notin> set (map Card_fromString cs)"
  then have n: "Card_toString Card_lowest
      \<notin> set (map Card_toString (cards (Play_fromString cs (Some (currentPlayer ctx)))))"
    by (simp only: lowest_in_playString not_False_eq_True)
  with assms show nd: "fst (play G ctx cs) \<noteq> Done"
    by (simp add: play_def Let_def split: option.splits)
  then show "snd (play G ctx cs) = G" by (rule play_rejected_unchanged)
  assume "map_of (players G) (currentPlayer ctx) \<noteq> None"
  with assms n show "fst (play G ctx cs) = INVALID_MOVE"
    by (auto simp: play_def Let_def split: option.splits)
next
  fix hand
  assume h: "map_of (players G) (currentPlayer ctx) = Some hand \<and> ''3C'' \<in> set hand"
  show v: "Play_value (Play_fromString [''3C''] (Some (currentPlayer ctx))) = Some 0"
    by (simp only: play_single_value lowest_value)
  have ps: "map Card_toString (cards (Play_fromString [''3C''] (Some (currentPlayer ctx)))) = [''3C'']"
    by (simp add: Play_fromString_def new_Play_def Card_toString_def)
  have lo: "Card_toString Card_lowest = ''3C''"
    by (simp add: Card_lowest_def Card_toString_def)
  from assms h show "fst (play G ctx [''3C'']) = Done"
    by (simp add: play_def Let_def v ps lo)
next
  assume "fst (play G ctx cs) = Done"
  with assms show "hasStarted (snd (play G ctx cs))"
    by (simp add: play_def Let_def split: option.splits if_splits)
qed


theorem first_play_needs_lowest_card_witness:
  "lastPlay example_deal = None \<and> \<not> hasStarted example_deal
   \<and> Card_lowest \<notin> set (map Card_fromString [''4C''])
   \<and> map_of (players example_deal) (currentPlayer (seat_ctx 0)) \<noteq> None
   \<and> fst (play example_deal (seat_ctx 0) [''4C'']) = INVALID_MOVE
   \<and> fst (play example_deal (seat_ctx 0) [''3C'']) = Done
   \<and> hasStarted (snd (play example_deal (seat_ctx 0) [''3C'']))"
proof -
  have a: "lastPlay example_deal = None" and b: "\<not> hasStarted example_deal"
    by code_simp+
  have c: "Card_lowest \<notin> set (map Card_fromString [''4C''])"
    by (simp add: Card_lowest_def)
  have d: "map_of (players example_deal) (currentPlayer (seat_ctx 0)) \<noteq> None"
    by code_simp
  have e: "fst (play example_deal (seat_ctx 0) [''3C'']) = Done"
    by code_simp
  note t = first_play_needs_lowest_card[OF a b, of _ "seat_ctx 0"]
  from t[of "[''4C'']"] c d have "fst (play example_deal (seat_ctx 0) [''4C'']) = INVALID_MOVE"
    by blast
  moreover from t[of "[''3C'']"] e have "hasStarted (snd (play example_deal (seat_ctx 0) [''3C'']))"
    by blast
  ultimately show ?thesis using a b c d e by blast
qed

lemma play_on_lastPlay:
  assumes "lastPlay G = Some lp" and "fst (play G ctx cs) = Done"
  shows "length cs = length (cards lp)
       \<and> (\<exists>v hand. Play_value (Play_fromString cs (Some (currentPlayer ctx))) = Some v
             \<and> ToNumber (Play_value lp) \<le> v
             \<and> map_of (players G) (currentPlayer ctx) = Some hand
             \<and> set (map Card_toString (cards (Play_fromString cs (Some (currentPlayer ctx)))))
                 \<subseteq> set hand)"
proof -
  have "length (cards (Play_fromString cs (Some (currentPlayer ctx)))) = length cs"
    by (simp add: Play_fromString_def)
  with assms show ?thesis
    by (auto simp: play_def Let_def list_all_iff split: option.splits if_splits)
qed

text \<open>
  C3 at a failing input: seat 0 holds 3C once and submits it twice. The play is accepted
  as a pair; the second splice finds no 3C left and removes the last card of the hand, 6C,
  which was not played.
\<close>

theorem duplicate_card_accepted:
  "map_of (players example_deal) (currentPlayer (seat_ctx 0))
     = Some [''3C'', ''3S'', ''3H'', ''3D'', ''4C'', ''4S'', ''4H'', ''4D'', ''5C'', ''5S'',
             ''5H'', ''5D'', ''6C'']
   \<and> fst (play example_deal (seat_ctx 0) [''3C'', ''3C'']) = Done
   \<and> discarded (snd (play example_deal (seat_ctx 0) [''3C'', ''3C''])) = [[Some ''3C'', Some ''6C'']]
   \<and> map_of (players (snd (play example_deal (seat_ctx 0) [''3C'', ''3C''])))
        (currentPlayer (seat_ctx 0))
     = Some [''3S'', ''3H'', ''3D'', ''4C'', ''4S'', ''4H'', ''4D'', ''5C'', ''5S'', ''5H'', ''5D'']"
  by code_simp

section \<open>Winners and the reachable states\<close>

lemma deal_winners: "winners (Dos_setup deck) = []"
  by (simp add: Dos_setup_def split: prod.splits)

lemma play_commit_winners:
  "winners (play_commit G ctx pl ps hand) =
     (if snd (discard_cards ps hand) = [] then winners G @ [currentPlayer ctx] else winners G)"
  "lastPlay (play_commit G ctx pl ps hand) =
     (if snd (discard_cards ps hand) = [] then None else Some pl)"
  "map_of (players (play_commit G ctx pl ps hand)) (currentPlayer ctx)
     = Some (snd (discard_cards ps hand))"
  by (simp_all add: play_commit_def Let_def update_Some_unfold split: prod.splits)

lemma play_Done_commit:
  assumes "play G ctx cs = (Done, G')"
  shows "\<exists>hand. map_of (players G) (currentPlayer ctx) = Some hand
           \<and> (G' = play_commit G ctx (Play_fromString cs (Some (currentPlayer ctx)))
                  (map Card_toString (cards (Play_fromString cs (Some (currentPlayer ctx))))) hand
              \<or> G' = play_commit (G\<lparr>hasStarted := True\<rparr>) ctx
                  (Play_fromString cs (Some (currentPlayer ctx)))
                  (map Card_toString (cards (Play_fromString cs (Some (currentPlayer ctx))))) hand)"
  using assms
  by (simp add: play_def Let_def split: option.splits if_splits)

lemma play_Done_winners:
  assumes "play G ctx cs = (Done, G')"
  shows "\<exists>hand'. map_of (players G') (currentPlayer ctx) = Some hand'
           \<and> (hand' = [] \<longrightarrow> winners G' = winners G @ [currentPlayer ctx] \<and> lastPlay G' = None)
           \<and> (hand' \<noteq> [] \<longrightarrow> winners G' = winners G)"
proof -
  from play_Done_commit[OF assms] obtain hand pl ps
    where "G' = play_commit G ctx pl ps hand \<or> G' = play_commit (G\<lparr>hasStarted := True\<rparr>) ctx pl ps hand"
    by blast
  then show ?thesis by (auto simp: play_commit_winners)
qed

lemma pass_Done_winners: "pass G ctx = Some (Done, G') \<Longrightarrow> winners G' = winners G"
  by (auto simp: pass_def split: option.splits if_splits)

lemma step_winners:
  assumes "step G ctx G' ctx'"
  shows "(winners G' = winners G \<or> winners G' = winners G @ [currentPlayer ctx])
         \<and> currentPlayer ctx' \<notin> set (winners G')"
  using assms
proof cases
  case (step_play cs n)
  from play_Done_winners[OF step_play(3)] getNext_not_winner[OF step_play(4)] step_play(1)
  show ?thesis by (auto simp: turn_to_def)
next
  case (step_pass n)
  from pass_Done_winners[OF step_pass(3)] getNext_not_winner[OF step_pass(4)] step_pass(1)
  show ?thesis by (auto simp: turn_to_def)
qed

lemma reachable_winners:
  "reachable G ctx \<Longrightarrow> distinct (winners G) \<and> currentPlayer ctx \<notin> set (winners G)"
proof (induction rule: reachable.induct)
  case (reach_setup deck)
  show ?case by (simp add: deal_winners)
next
  case (reach_step G ctx G' ctx')
  with step_winners[OF reach_step(2)] show ?case by auto
qed

lemma later_winners:
  "later G ctx G' ctx' \<Longrightarrow> set (winners G) \<subseteq> set (winners G')"
proof (induction rule: later.induct)
  case (later_refl G ctx)
  show ?case by simp
next
  case (later_step G ctx G' ctx' G'' ctx'')
  with step_winners[OF later_step(1)] show ?case by auto
qed

lemma later_reachable: "later G ctx G' ctx' \<Longrightarrow> reachable G ctx \<Longrightarrow> reachable G' ctx'"
  by (induction rule: later.induct) (auto intro: reach_step)

lemma run_moves_later: "run_moves G ctx ms = Some (G', ctx') \<Longrightarrow> later G ctx G' ctx'"
proof (induction ms arbitrary: G ctx)
  case Nil
  then show ?case by (simp add: later_refl)
next
  case (Cons m ms)
  show ?case
  proof (cases m)
    case (Play_cards cs)
    with Cons.prems obtain G1 n where e: "\<not> endIf G" and p: "play G ctx cs = (Done, G1)"
      and g: "getNext G1 ctx = Some n" and r: "run_moves G1 (turn_to ctx n) ms = Some (G', ctx')"
      by (auto split: if_splits prod.splits MoveResult.splits option.splits)
    from e p g have "step G ctx G1 (turn_to ctx n)" by (rule step_play)
    moreover from r have "later G1 (turn_to ctx n) G' ctx'" by (rule Cons.IH)
    ultimately show ?thesis by (rule later_step)
  next
    case Pass_turn
    with Cons.prems obtain G1 n where e: "\<not> endIf G" and p: "pass G ctx = Some (Done, G1)"
      and g: "getNext G1 ctx = Some n" and r: "run_moves G1 (turn_to ctx n) ms = Some (G', ctx')"
      by (auto split: if_splits prod.splits MoveResult.splits option.splits)
    from e p g have "step G ctx G1 (turn_to ctx n)" by (rule step_pass)
    moreover from r have "later G1 (turn_to ctx n) G' ctx'" by (rule Cons.IH)
    ultimately show ?thesis by (rule later_step)
  qed
qed

lemma count_list_distinct: "distinct xs \<Longrightarrow> x \<in> set xs \<Longrightarrow> count_list xs x = 1"
  by (induction xs) (auto simp: count_list_0_iff)

lemma example_deal_reachable: "reachable example_deal (seat_ctx 0)"
proof -
  have "firstTurn (Dos_setup Card_newDeck) = 0" by code_simp
  with reach_setup[of Card_newDeck] show ?thesis
    by (simp add: example_deal_def seat_ctx_def)
qed

lemma example_last_three_run:
  "run_moves example_deal (seat_ctx 0)
       [Play_cards [''3C'', ''3S'', ''3H'', ''3D'', ''6C''], Pass_turn, Pass_turn, Pass_turn,
        Play_cards [''4C'', ''4S'', ''4H'', ''4D'', ''5C''], Pass_turn, Pass_turn, Pass_turn]
   = Some (example_last_three, seat_ctx 0)"
  by code_simp

lemma example_overplay_run:
  "run_moves example_deal (seat_ctx 0)
       [Play_cards [''3C'', ''3S'', ''3H'', ''3D'', ''4C''], Pass_turn, Pass_turn, Pass_turn,
        Play_cards [''4S'', ''4H'', ''4D'', ''5C'', ''5S''], Pass_turn, Pass_turn, Pass_turn,
        Play_cards [''5H'', ''5H'', ''5H'', ''6C'', ''6C'']]
   = Some (example_overplay, seat_ctx 1)"
  by code_simp


text \<open>
  C8: when a play the game takes in a reachable state leaves the seat's hand empty, the
  seat is appended to the winners and the last play is cleared; the seat then occurs
  exactly once among the winners, in that state and in every state that comes after it,
  and no next-seat computation in any of these states returns the seat.
\<close>

theorem emptied_hand_wins:
  assumes "reachable G ctx" and "\<not> endIf G" and "play G ctx cs = (Done, G')"
    and "map_of (players G') (currentPlayer ctx) = Some []"
  shows "winners G' = winners G @ [currentPlayer ctx] \<and> lastPlay G' = None
       \<and> count_list (winners G') (currentPlayer ctx) = 1
       \<and> (\<forall>n G'' ctx''. getNext G' ctx = Some n \<and> later G' (turn_to ctx n) G'' ctx'' \<longrightarrow>
             count_list (winners G'') (currentPlayer ctx) = 1
             \<and> (\<forall>c m. getNext G'' c = Some m \<longrightarrow> m \<noteq> currentPlayer ctx))"
proof -
  let ?seat = "currentPlayer ctx"
  from play_Done_winners[OF assms(3)] assms(4)
  have w: "winners G' = winners G @ [?seat]" and l: "lastPlay G' = None" by auto
  from reachable_winners[OF assms(1)] have d: "distinct (winners G)" "?seat \<notin> set (winners G)"
    by auto
  with w have c: "count_list (winners G') ?seat = 1"
    by (intro count_list_distinct) auto
  have after: "count_list (winners G'') ?seat = 1 \<and> (\<forall>c m. getNext G'' c = Some m \<longrightarrow> m \<noteq> ?seat)"
    if n: "getNext G' ctx = Some n" and lt: "later G' (turn_to ctx n) G'' ctx''" for n G'' ctx''
  proof -
    from assms(2,3) n have "step G ctx G' (turn_to ctx n)" by (rule step_play)
    with assms(1) have "reachable G' (turn_to ctx n)" by (rule reach_step)
    with lt have "reachable G'' ctx''" by (rule later_reachable)
    then have "distinct (winners G'')" using reachable_winners by blast
    moreover from later_winners[OF lt] w have m: "?seat \<in> set (winners G'')" by auto
    ultimately have "count_list (winners G'') ?seat = 1" by (rule count_list_distinct)
    moreover have "m \<noteq> ?seat" if "getNext G'' c = Some m" for c m
      using getNext_not_winner[OF that] m by blast
    ultimately show ?thesis by blast
  qed
  from w l c after show ?thesis by blast
qed

theorem emptied_hand_wins_witness:
  "reachable example_last_three (seat_ctx 0) \<and> \<not> endIf example_last_three
   \<and> fst (play example_last_three (seat_ctx 0) [''5S'', ''5H'', ''5D'']) = Done
   \<and> map_of (players (snd (play example_last_three (seat_ctx 0) [''5S'', ''5H'', ''5D''])))
        (currentPlayer (seat_ctx 0)) = Some []
   \<and> winners (snd (play example_last_three (seat_ctx 0) [''5S'', ''5H'', ''5D'']))
        = winners example_last_three @ [currentPlayer (seat_ctx 0)]
   \<and> lastPlay (snd (play example_last_three (seat_ctx 0) [''5S'', ''5H'', ''5D''])) = None
   \<and> count_list (winners (snd (play example_last_three (seat_ctx 0) [''5S'', ''5H'', ''5D''])))
        (currentPlayer (seat_ctx 0)) = 1"
proof -
  let ?G' = "snd (play example_last_three (seat_ctx 0) [''5S'', ''5H'', ''5D''])"
  have r: "reachable example_last_three (seat_ctx 0)"
    using later_reachable[OF run_moves_later[OF example_last_three_run] example_deal_reachable] .
  have e: "\<not> endIf example_last_three" by code_simp
  have f: "fst (play example_last_three (seat_ctx 0) [''5S'', ''5H'', ''5D'']) = Done"
    by code_simp
  then have p: "play example_last_three (seat_ctx 0) [''5S'', ''5H'', ''5D''] = (Done, ?G')"
    by (metis prod.collapse)
  have h: "map_of (players ?G') (currentPlayer (seat_ctx 0)) = Some []"
    by code_simp
  from emptied_hand_wins[OF r e p h] r e f h show ?thesis by blast
qed

section \<open>The accounting of the deck\<close>

lemma defined_entries_append [simp]:
  "defined_entries (xs @ ys) = defined_entries xs @ defined_entries ys"
  by (induction xs rule: defined_entries.induct) auto

lemma discard_cards_conserve:
  "discard_cards cs hand = (ds, hand') \<Longrightarrow> mset hand' + mset (defined_entries ds) = mset hand"
proof (induction cs arbitrary: hand ds hand')
  case Nil
  then show ?case by simp
next
  case (Cons c cs)
  show ?case
  proof (cases "c \<in> set hand")
    case True
    with Cons.prems obtain ds' where d: "discard_cards cs (remove1 c hand) = (ds', hand')"
      and ds: "ds = Some c # ds'"
      by (auto simp: discard_cards_Cons simp del: discard_cards.simps split: prod.splits)
    from Cons.IH[OF d] True ds show ?thesis by simp
  next
    case False
    show ?thesis
    proof (cases "hand = []")
      case True
      with False Cons.prems obtain ds' where d: "discard_cards cs [] = (ds', hand')"
        and ds: "ds = None # ds'"
        by (auto simp: discard_cards_Cons simp del: discard_cards.simps split: prod.splits)
      from Cons.IH[OF d] True ds show ?thesis by simp
    next
      case nonempty: False
      with False Cons.prems obtain ds' where d: "discard_cards cs (butlast hand) = (ds', hand')"
        and ds: "ds = Some (last hand) # ds'"
        by (auto simp: discard_cards_Cons simp del: discard_cards.simps split: prod.splits)
      from nonempty have "mset hand = mset (butlast hand) + {#last hand#}"
        by (metis append_butlast_last_id mset.simps(1) mset.simps(2) mset_append add_mset_add_single union_mset_add_mset_right add.right_neutral)
      with Cons.IH[OF d] ds show ?thesis by simp
    qed
  qed
qed

lemma update_hand_conserve:
  "map_of al k = Some h \<Longrightarrow>
     mset (concat (map snd (AList.update k v al))) + mset h = mset (concat (map snd al)) + mset v"
  by (induction al) (auto split: if_splits)

lemma update_hand_keys:
  "map_of al k = Some h \<Longrightarrow> map fst (AList.update k v al) = map fst al"
  by (induction al) (auto split: if_splits)


lemma update_new_key: "k \<notin> set (map fst al) \<Longrightarrow> AList.update k v al = al @ [(k, v)]"
  by (induction al) auto

lemma deal_unfold:
  "deck \<noteq> [] \<Longrightarrow>
     deal deck ps rs ft =
       deal (drop 13 deck) (AList.update (length ps) (map Card_toString (take 13 deck)) ps)
         (AList.update (length ps) (length (take 13 deck)) rs)
         (if list_ex (\<lambda>c. Card_value c = Card_value Card_lowest) (take 13 deck)
          then length ps else ft)"
  by (subst deal.simps) (simp add: Let_def)

lemma deal_empty: "deal [] ps rs ft = (ps, rs, ft)"
  by (subst deal.simps) simp

lemma hands_count_nat:
  fixes n :: nat
  assumes "0 < n"
  shows "1 + (n - 13 + 12) div 13 = (n + 12) div 13"
proof (cases "n < 13")
  case True
  with assms have "(n + 12) div 13 = 1" by (intro div_nat_eqI) simp_all
  moreover from True have "(n - 13 + 12) div 13 = 0" by simp
  ultimately show ?thesis by simp
next
  case False
  then obtain k where k: "n = k + 13" by (metis le_add_diff_inverse2 not_less)
  have "(k + 13 + 12) div 13 = (k + 12) div 13 + 1"
    by (metis add.assoc add.commute div_add_self2 zero_neq_numeral)
  with k show ?thesis by simp
qed

lemma hands_count:
  assumes "0 < length (deck :: 'a list)"
  shows "1 + (length (drop 13 deck) + 12) div 13 = (length deck + 12) div 13"
  using hands_count_nat[OF assms] by (simp only: length_drop)

lemma deal_result:
  "deal deck ps rs ft = (ps', rs', ft') \<Longrightarrow> map fst ps = [0..<length ps] \<Longrightarrow>
     concat (map snd ps') = concat (map snd ps) @ map Card_toString deck
     \<and> map fst ps' = [0..<length ps']
     \<and> length ps' = length ps + (length deck + 12) div 13"
proof (induction "length deck" arbitrary: deck ps rs ft rule: less_induct)
  case less
  show ?case
  proof (cases "deck = []")
    case True
    with less.prems show ?thesis by (simp add: deal_empty)
  next
    case False
    let ?p = "length ps"
    let ?hand = "take 13 deck"
    let ?ps1 = "AList.update ?p (map Card_toString ?hand) ps"
    let ?rs1 = "AList.update ?p (length ?hand) rs"
    let ?ft1 = "if list_ex (\<lambda>c. Card_value c = Card_value Card_lowest) ?hand then ?p else ft"
    from less.prems(2) have new: "?p \<notin> set (map fst ps)" by simp
    then have ps1: "?ps1 = ps @ [(?p, map Card_toString ?hand)]" by (rule update_new_key)
    with less.prems(2) have keys: "map fst ?ps1 = [0..<length ?ps1]" by simp
    from less.prems(1) have d: "deal (drop 13 deck) ?ps1 ?rs1 ?ft1 = (ps', rs', ft')"
      by (simp only: deal_unfold[OF False])
    from False have shorter: "length (drop 13 deck) < length deck" by simp
    from less.hyps[OF shorter d keys]
    have IH: "concat (map snd ps') = concat (map snd ?ps1) @ map Card_toString (drop 13 deck)"
      "map fst ps' = [0..<length ps']"
      "length ps' = length ?ps1 + (length (drop 13 deck) + 12) div 13" by blast+
    have "map Card_toString ?hand @ map Card_toString (drop 13 deck) = map Card_toString deck"
      by (metis append_take_drop_id map_append)
    with IH(1) have c: "concat (map snd ps') = concat (map snd ps) @ map Card_toString deck"
      by (simp only: ps1 map_append concat_append list.map snd_conv concat.simps append_Nil2 append_assoc)
    from False have "0 < length deck" by simp
    then have "1 + (length (drop 13 deck) + 12) div 13 = (length deck + 12) div 13"
      by (rule hands_count)
    moreover have "length ?ps1 = length ps + 1" by (simp only: ps1 length_append) simp
    ultimately have l: "length ps' = length ps + (length deck + 12) div 13"
      using IH(3) by simp
    from c IH(2) l show ?thesis by blast
  qed
qed

lemma length_newDeck: "length Card_newDeck = 52"
  by (simp add: Card_newDeck_def RANKS_def SUITS_def)

lemma setup_cards:
  assumes "mset deck = mset Card_newDeck"
  shows "mset (hand_cards (Dos_setup deck)) = mset (map Card_toString Card_newDeck)"
    and "map fst (players (Dos_setup deck)) = [0..<NUM_PLAYERS]"
    and "discarded (Dos_setup deck) = []"
proof -
  obtain ps rs ft where d: "deal deck [] [] 0 = (ps, rs, ft)" by (cases "deal deck [] [] 0")
  from deal_result[OF d] have r: "concat (map snd ps) = map Card_toString deck"
    "map fst ps = [0..<length ps]" "length ps = (length deck + 12) div 13" by simp_all
  from assms have "length deck = 52"
    by (metis length_newDeck size_mset)
  with r(3) have "length ps = 4" by simp
  with r(2) d show "map fst (players (Dos_setup deck)) = [0..<NUM_PLAYERS]"
    by (simp add: Dos_setup_def NUM_PLAYERS_def)
  from r(1) d assms show "mset (hand_cards (Dos_setup deck)) = mset (map Card_toString Card_newDeck)"
    by (simp add: Dos_setup_def hand_cards_def)
  from d show "discarded (Dos_setup deck) = []" by (simp add: Dos_setup_def)
qed

lemma play_commit_cards:
  assumes "map_of (players G) (currentPlayer ctx) = Some hand"
  shows "mset (hand_cards (play_commit G ctx pl ps hand))
           + mset (discarded_cards (play_commit G ctx pl ps hand))
         = mset (hand_cards G) + mset (discarded_cards G)"
    and "map fst (players (play_commit G ctx pl ps hand)) = map fst (players G)"
proof -
  obtain ds hand' where d: "discard_cards ps hand = (ds, hand')"
    by (cases "discard_cards ps hand")
  have pl: "players (play_commit G ctx pl ps hand) = AList.update (currentPlayer ctx) hand' (players G)"
    and di: "discarded (play_commit G ctx pl ps hand) = discarded G @ [ds]"
    using d by (simp_all add: play_commit_def Let_def)
  let ?X = "mset (hand_cards (play_commit G ctx pl ps hand))"
  let ?D = "mset (defined_entries ds)"
  from update_hand_conserve[OF assms, of hand']
  have a: "?X + mset hand = mset (hand_cards G) + mset hand'"
    by (simp add: hand_cards_def pl)
  from discard_cards_conserve[OF d]
  have b: "mset hand' + ?D = mset hand" .
  have "?X + ?D + mset hand = (?X + mset hand) + ?D" by (simp only: ac_simps)
  also have "\<dots> = (mset (hand_cards G) + mset hand') + ?D" by (simp only: a)
  also have "\<dots> = mset (hand_cards G) + (mset hand' + ?D)" by (simp only: ac_simps)
  also have "\<dots> = mset (hand_cards G) + mset hand" by (simp only: b)
  finally have "?X + ?D = mset (hand_cards G)" by (simp only: add_right_cancel)
  then show "mset (hand_cards (play_commit G ctx pl ps hand))
           + mset (discarded_cards (play_commit G ctx pl ps hand))
         = mset (hand_cards G) + mset (discarded_cards G)"
    by (simp add: discarded_cards_def di)
  show "map fst (players (play_commit G ctx pl ps hand)) = map fst (players G)"
    unfolding pl using assms by (rule update_hand_keys)
qed

lemma step_cards:
  assumes "step G ctx G' ctx'"
  shows "mset (hand_cards G') + mset (discarded_cards G')
           = mset (hand_cards G) + mset (discarded_cards G)
         \<and> map fst (players G') = map fst (players G)"
  using assms
proof cases
  case (step_play cs n)
  from play_Done_commit[OF step_play(3)] obtain hand pl ps where
    h: "map_of (players G) (currentPlayer ctx) = Some hand"
    and G': "G' = play_commit G ctx pl ps hand \<or> G' = play_commit (G\<lparr>hasStarted := True\<rparr>) ctx pl ps hand"
    by blast
  from h have h': "map_of (players (G\<lparr>hasStarted := True\<rparr>)) (currentPlayer ctx) = Some hand"
    by simp
  from G' play_commit_cards[OF h, of pl ps] play_commit_cards[OF h', of pl ps]
  show ?thesis by (auto simp: hand_cards_def discarded_cards_def)
next
  case (step_pass n)
  then have "players G' = players G \<and> discarded G' = discarded G"
    by (auto simp: pass_def split: option.splits if_splits)
  then show ?thesis by (simp add: hand_cards_def discarded_cards_def)
qed

lemma reachable_cards:
  "reachable G ctx \<Longrightarrow>
     mset (hand_cards G) + mset (discarded_cards G) = mset (map Card_toString Card_newDeck)
     \<and> map fst (players G) = [0..<NUM_PLAYERS]"
proof (induction rule: reachable.induct)
  case (reach_setup deck)
  from setup_cards[OF this] show ?case by (simp add: discarded_cards_def)
next
  case (reach_step G ctx G' ctx')
  with step_cards[OF reach_step(2)] show ?case by simp
qed

lemma deck_strings_distinct: "distinct (map Card_toString Card_newDeck)"
  by code_simp

text \<open>
  C4: in every reachable state the card strings of the four hands together with the card
  strings of the discard history are, as a multiset, the 52 cards of the deck, and each of
  the 52 cards occurs exactly once among them. (A discarded group can also hold
  \<^verbatim>\<open>undefined\<close> entries, which are no cards: see the run below.)
\<close>

theorem cards_conserved:
  assumes "reachable G ctx"
  shows "mset (hand_cards G) + mset (discarded_cards G) = mset (map Card_toString Card_newDeck)
       \<and> length (map Card_toString Card_newDeck) = 52
       \<and> map fst (players G) = [0..<NUM_PLAYERS]
       \<and> (\<forall>c\<in>set (map Card_toString Card_newDeck).
            count_list (hand_cards G @ discarded_cards G) c = 1)"
proof -
  from reachable_cards[OF assms]
  have m: "mset (hand_cards G) + mset (discarded_cards G) = mset (map Card_toString Card_newDeck)"
    and k: "map fst (players G) = [0..<NUM_PLAYERS]" by simp_all
  have "count_list (hand_cards G @ discarded_cards G) c = 1"
    if "c \<in> set (map Card_toString Card_newDeck)" for c
  proof -
    have "count_list (hand_cards G @ discarded_cards G) c
        = count (mset (hand_cards G) + mset (discarded_cards G)) c"
      by (simp add: count_mset[symmetric] del: count_mset)
    also have "\<dots> = count (mset (map Card_toString Card_newDeck)) c" by (simp only: m)
    also have "\<dots> = count_list (map Card_toString Card_newDeck) c" by (rule count_mset)
    also have "\<dots> = 1" using deck_strings_distinct that by (rule count_list_distinct)
    finally show ?thesis .
  qed
  with m k length_newDeck show ?thesis by simp
qed

text \<open>
  The run that ends with seat 0, holding 5H 5D 6C, playing the five strings
  5H 5H 5H 6C 6C is made of accepted moves only. The last two splices find the hand
  empty, so the discarded group records two \<^verbatim>\<open>undefined\<close> entries beside the three
  cards the hand held.
\<close>

lemma overplay_discards_undefined:
  "reachable example_overplay (seat_ctx 1)
   \<and> discarded example_overplay
       = [[Some ''3C'', Some ''3S'', Some ''3H'', Some ''3D'', Some ''4C''],
          [Some ''4S'', Some ''4H'', Some ''4D'', Some ''5C'', Some ''5S''],
          [Some ''5H'', Some ''6C'', Some ''5D'', None, None]]"
proof -
  have r: "reachable example_overplay (seat_ctx 1)"
    using later_reachable[OF run_moves_later[OF example_overplay_run] example_deal_reachable] .
  have d: "discarded example_overplay
       = [[Some ''3C'', Some ''3S'', Some ''3H'', Some ''3D'', Some ''4C''],
          [Some ''4S'', Some ''4H'', Some ''4D'', Some ''5C'', Some ''5S''],
          [Some ''5H'', Some ''6C'', Some ''5D'', None, None]]"
    by code_simp
  with r show ?thesis by blast
qed

theorem cards_conserved_witness:
  "reachable example_overplay (seat_ctx 1)
   \<and> mset (hand_cards example_overplay) + mset (discarded_cards example_overplay)
       = mset (map Card_toString Card_newDeck)
   \<and> discarded_cards example_overplay
       = [''3C'', ''3S'', ''3H'', ''3D'', ''4C'', ''4S'', ''4H'', ''4D'', ''5C'', ''5S'',
          ''5H'', ''6C'', ''5D'']
   \<and> count_list (hand_cards example_overplay @ discarded_cards example_overplay) ''6C'' = 1"
proof -
  from overplay_discards_undefined have r: "reachable example_overplay (seat_ctx 1)"
    and d: "discarded example_overplay
       = [[Some ''3C'', Some ''3S'', Some ''3H'', Some ''3D'', Some ''4C''],
          [Some ''4S'', Some ''4H'', Some ''4D'', Some ''5C'', Some ''5S''],
          [Some ''5H'', Some ''6C'', Some ''5D'', None, None]]"
    by blast+
  from d have e: "discarded_cards example_overplay
       = [''3C'', ''3S'', ''3H'', ''3D'', ''4C'', ''4S'', ''4H'', ''4D'', ''5C'', ''5S'',
          ''5H'', ''6C'', ''5D'']"
    by (simp add: discarded_cards_def)
  have m: "''6C'' \<in> set (map Card_toString Card_newDeck)" by code_simp
  from cards_conserved[OF r] m
  have "mset (hand_cards example_overplay) + mset (discarded_cards example_overplay)
       = mset (map Card_toString Card_newDeck)"
    "count_list (hand_cards example_overplay @ discarded_cards example_overplay) ''6C'' = 1"
    by blast+
  with r e show ?thesis by blast
qed

section \<open>Beating the last play\<close>

text \<open>
  The value of a play is the value of one of its cards (the flush key of that card for a
  flush), offset by a thousand times the kind for five cards. On the cards of the deck
  both numbers are injective, so two plays with the same value have a card in common.
\<close>

lemma deck_value_inj:
  assumes "a \<in> set Card_newDeck" "b \<in> set Card_newDeck" "Card_value a = Card_value b"
  shows "a = b"
proof -
  have "distinct (map Card_value Card_newDeck)" by code_simp
  then have "inj_on Card_value (set Card_newDeck)" by (simp add: distinct_map)
  with assms show ?thesis by (meson inj_onD)
qed

lemma deck_flush_inj:
  assumes "a \<in> set Card_newDeck" "b \<in> set Card_newDeck" "flush_key a = flush_key b"
  shows "a = b"
proof -
  have "distinct (map flush_key Card_newDeck)" by code_simp
  then have "inj_on flush_key (set Card_newDeck)" by (simp add: distinct_map)
  with assms show ?thesis by (meson inj_onD)
qed

lemma deck_shape:
  assumes "c \<in> set Card_newDeck"
  shows "\<exists>r s. c = \<lparr>rank = [r], suit = [s]\<rparr>"
proof -
  have "list_all (\<lambda>c. length (rank c) = 1 \<and> length (suit c) = 1) Card_newDeck"
    by code_simp
  with assms have l: "length (rank c) = 1" "length (suit c) = 1"
    unfolding list_all_iff by blast+
  then obtain r s where "rank c = [r]" "suit c = [s]"
    by (auto simp: length_Suc_conv)
  then have "c = \<lparr>rank = [r], suit = [s]\<rparr>" by simp
  then show ?thesis by blast
qed

lemma fromString_deck:
  assumes "Card_toString (Card_fromString s) \<in> set (map Card_toString Card_newDeck)"
  shows "Card_fromString s \<in> set Card_newDeck"
proof -
  from assms obtain d where d: "d \<in> set Card_newDeck"
    "Card_toString (Card_fromString s) = Card_toString d" by auto
  from deck_shape[OF d(1)] obtain r t where rt: "d = \<lparr>rank = [r], suit = [t]\<rparr>" by blast
  have "Card_fromString s = d"
  proof (cases s rule: Card_fromString.cases)
    case 1
    with d(2) rt show ?thesis by (simp add: Card_toString_def js_undefined_def)
  next
    case (2 x)
    with d(2) rt show ?thesis by (simp add: Card_toString_def js_undefined_def)
  next
    case (3 x y zs)
    with d(2) rt show ?thesis by (simp add: Card_toString_def)
  qed
  with d(1) show ?thesis by simp
qed


lemma straight_anchor:
  "straight p = Some x \<Longrightarrow> \<exists>a\<in>set (cards p). Card_value a = x"
  by (auto simp: straight_def Let_def find_Some_iff split: if_splits)

lemma combi5_anchor:
  assumes "length (cards p) = 5" and "combi5 p = (k, x)" and "k \<noteq> CNone"
  shows "\<exists>a\<in>set (cards p). if k = Flush then flush_key a = x else Card_value a = x"
proof -
  have n: "cards p ! 1 \<in> set (cards p)" "cards p ! 2 \<in> set (cards p)"
    "cards p ! 4 \<in> set (cards p)"
    using assms(1) by simp_all
  consider (s) "truthy (straight p)"
    | (q) "\<not> truthy (straight p)" "truthy (quadro p)"
    | (f) "\<not> truthy (straight p)" "\<not> truthy (quadro p)" "truthy (fullHouse p)"
    | (l) "\<not> truthy (straight p)" "\<not> truthy (quadro p)" "\<not> truthy (fullHouse p)"
        "truthy (flush p)"
    | (none) "\<not> truthy (straight p)" "\<not> truthy (quadro p)" "\<not> truthy (fullHouse p)"
        "\<not> truthy (flush p)"
    by blast
  then show ?thesis
  proof cases
    case s
    then obtain v where v: "straight p = Some v" using truthy_Some by blast
    with s assms(2) have "k \<noteq> Flush" "x = v" by (auto simp: combi5_def Let_def split: if_splits)
    with straight_anchor[OF v] show ?thesis by auto
  next
    case q
    then obtain v where v: "quadro p = Some v" using truthy_Some by blast
    with q assms(2) have "k = Quadro" "x = v" by (auto simp: combi5_def Let_def)
    moreover from v have "v = Card_value (cards p ! 1)" by (auto simp: quadro_def split: if_splits)
    ultimately show ?thesis using n(1) by auto
  next
    case f
    then obtain v where v: "fullHouse p = Some v" using truthy_Some by blast
    with f assms(2) have "k = FullHouse" "x = v" by (auto simp: combi5_def Let_def)
    moreover from v have "v = Card_value (cards p ! 2)"
      by (auto simp: fullHouse_def split: if_splits)
    ultimately show ?thesis using n(2) by auto
  next
    case l
    then obtain v where v: "flush p = Some v" using truthy_Some by blast
    with l assms(2) have "k = Flush" "x = v" by (auto simp: combi5_def Let_def)
    moreover from v have "v = flush_key (cards p ! 4)"
      by (auto simp: flush_def flush_key_def split: if_splits)
    ultimately show ?thesis using n(3) by auto
  next
    case none
    with assms(2,3) show ?thesis by (simp add: combi5_def Let_def)
  qed
qed

lemma value_anchor:
  assumes "Play_value p = Some v"
  shows "\<exists>a\<in>set (cards p). \<exists>k x. v = Combi_num k * 1000 + x \<and> - 14 \<le> x \<and> x \<le> 51
           \<and> (if k = Flush then flush_key a = x else Card_value a = x)"
proof -
  consider (one) "length (cards p) = 1" | (two) "length (cards p) = 2"
    | (three) "length (cards p) = 3" | (five) "length (cards p) = 5"
    | (other) "length (cards p) \<notin> {1, 2, 3, 5}" by blast
  then show ?thesis
  proof cases
    case one
    with assms have v: "v = Card_value (cards p ! 0)" by (simp add: Play_value_def)
    from one have "cards p ! 0 \<in> set (cards p)" by simp
    with v Card_value_bounds[of "cards p ! 0"] show ?thesis
      by (intro bexI[of _ "cards p ! 0"] exI[of _ CNone] exI[of _ v]) auto
  next
    case two
    with assms have v: "v = Card_value (cards p ! 1)"
      by (simp add: Play_value_def split: if_splits)
    from two have "cards p ! 1 \<in> set (cards p)" by simp
    with v Card_value_bounds[of "cards p ! 1"] show ?thesis
      by (intro bexI[of _ "cards p ! 1"] exI[of _ CNone] exI[of _ v]) auto
  next
    case three
    with assms have v: "v = Card_value (cards p ! 0)"
      by (simp add: Play_value_def split: if_splits)
    from three have "cards p ! 0 \<in> set (cards p)" by simp
    with v Card_value_bounds[of "cards p ! 0"] show ?thesis
      by (intro bexI[of _ "cards p ! 0"] exI[of _ CNone] exI[of _ v]) auto
  next
    case five
    obtain k x where c: "combi5 p = (k, x)" by (cases "combi5 p")
    with five assms have k: "k \<noteq> CNone" and v: "v = Combi_num k * 1000 + x"
      by (auto simp: Play_value_def split: if_splits)
    from combi5_anchor[OF five c k] obtain a where "a \<in> set (cards p)"
      "if k = Flush then flush_key a = x else Card_value a = x" by blast
    with v combi5_bounds[OF c] show ?thesis by blast
  next
    case other
    with assms show ?thesis by (simp add: Play_value_def)
  qed
qed

lemma same_value_shared_card:
  assumes "set (cards p) \<subseteq> set Card_newDeck" and "set (cards q) \<subseteq> set Card_newDeck"
    and "Play_value p = Some v" and "Play_value q = Some v"
  shows "set (cards p) \<inter> set (cards q) \<noteq> {}"
proof -
  from value_anchor[OF assms(3)] obtain a k x where a: "a \<in> set (cards p)"
    "v = Combi_num k * 1000 + x" "- 14 \<le> x" "x \<le> 51"
    "if k = Flush then flush_key a = x else Card_value a = x" by blast
  from value_anchor[OF assms(4)] obtain b k' x' where b: "b \<in> set (cards q)"
    "v = Combi_num k' * 1000 + x'" "- 14 \<le> x'" "x' \<le> 51"
    "if k' = Flush then flush_key b = x' else Card_value b = x'" by blast
  have kn: "0 \<le> Combi_num k" "Combi_num k \<le> 5" "0 \<le> Combi_num k'" "Combi_num k' \<le> 5"
    by (cases k; simp; fail)+ (cases k'; simp; fail)+
  from a(2-4) b(2-4) have "Combi_num k = Combi_num k'" by arith
  then have kk: "k = k'" by (cases k; cases k'; simp)
  with a(2) b(2) have xx: "x = x'" by simp
  from assms(1,2) a(1) b(1) have d: "a \<in> set Card_newDeck" "b \<in> set Card_newDeck" by auto
  have "a = b"
  proof (cases "k = Flush")
    case True
    with a(5) b(5) kk xx have "flush_key a = flush_key b" by simp
    with d show ?thesis by (rule deck_flush_inj)
  next
    case False
    with a(5) b(5) kk xx have "Card_value a = Card_value b" by simp
    with d show ?thesis by (rule deck_value_inj)
  qed
  with a(1) b(1) show ?thesis by blast
qed


lemma discard_cards_removed:
  "distinct hand \<Longrightarrow> discard_cards cs hand = (ds, hand') \<Longrightarrow>
     distinct hand' \<and> set hand' \<subseteq> set hand \<and> set cs \<inter> set hand' = {}"
proof (induction cs arbitrary: hand ds)
  case Nil
  then show ?case by simp
next
  case (Cons c cs)
  obtain h1 where h1: "h1 = (if c \<in> set hand then remove1 c hand else butlast hand)" by blast
  from Cons.prems(2) obtain ds' where d: "discard_cards cs h1 = (ds', hand')"
    unfolding h1
    by (auto simp: discard_cards_Cons simp del: discard_cards.simps split: prod.splits if_splits)
  have dh: "distinct h1" using Cons.prems(1) by (simp add: h1 distinct_butlast)
  have sub: "set h1 \<subseteq> set hand"
    using set_remove1_subset[of c hand] by (auto simp: h1 dest: in_set_butlastD)
  have c: "c \<notin> set h1"
    using Cons.prems(1) by (auto simp: h1 dest: in_set_butlastD)
  from Cons.IH[OF dh d] sub c show ?case by auto
qed

lemma discard_cards_played:
  assumes "distinct hand" and "discard_cards cs hand = (ds, hand')" and "set cs \<subseteq> set hand"
  shows "set cs \<subseteq> set (defined_entries ds)"
proof
  fix c assume c: "c \<in> set cs"
  with assms(3) have "c \<in># mset hand" by auto
  then have "c \<in># mset hand' + mset (defined_entries ds)"
    by (simp only: discard_cards_conserve[OF assms(2)])
  moreover from discard_cards_removed[OF assms(1,2)] c have "c \<notin> set hand'" by blast
  ultimately show "c \<in> set (defined_entries ds)" by simp
qed

lemma distinct_concat_member: "distinct (concat xss) \<Longrightarrow> xs \<in> set xss \<Longrightarrow> distinct xs"
  by (induction xss) auto

lemma reachable_hands:
  assumes "reachable G ctx"
  shows "distinct (hand_cards G)"
    and "set (hand_cards G) \<inter> set (discarded_cards G) = {}"
    and "set (hand_cards G) \<subseteq> set (map Card_toString Card_newDeck)"
    and "set (discarded_cards G) \<subseteq> set (map Card_toString Card_newDeck)"
proof -
  from reachable_cards[OF assms]
  have m: "mset (hand_cards G @ discarded_cards G) = mset (map Card_toString Card_newDeck)"
    by simp
  from mset_eq_imp_distinct_iff[OF m] deck_strings_distinct
  have "distinct (hand_cards G @ discarded_cards G)" by simp
  then show "distinct (hand_cards G)" "set (hand_cards G) \<inter> set (discarded_cards G) = {}"
    by simp_all
  from mset_eq_setD[OF m]
  show "set (hand_cards G) \<subseteq> set (map Card_toString Card_newDeck)"
    "set (discarded_cards G) \<subseteq> set (map Card_toString Card_newDeck)" by auto
qed

lemma hand_of_seat:
  assumes "map_of (players G) k = Some hand"
  shows "set hand \<subseteq> set (hand_cards G)" and "distinct (hand_cards G) \<Longrightarrow> distinct hand"
proof -
  from assms have "(k, hand) \<in> set (players G)" by (rule map_of_SomeD)
  then have h: "hand \<in> set (map snd (players G))" by force
  then show "set hand \<subseteq> set (hand_cards G)" by (auto simp: hand_cards_def)
  assume "distinct (hand_cards G)"
  with h show "distinct hand" unfolding hand_cards_def by (rule distinct_concat_member[rotated])
qed


lemma length_update_bounds:
  "length al \<le> length (AList.update k v al) \<and> length (AList.update k v al) \<le> length al + 1"
  by (induction al) auto

lemma deal_firstTurn:
  "deal deck ps rs ft = (ps', rs', ft') \<Longrightarrow>
     ft' = ft \<or> (length ps \<le> ft' \<and> ft' < length ps + (length deck + 12) div 13)"
proof (induction "length deck" arbitrary: deck ps rs ft rule: less_induct)
  case less
  show ?case
  proof (cases "deck = []")
    case True
    with less.prems show ?thesis by (simp add: deal_empty)
  next
    case False
    let ?p = "length ps"
    let ?hand = "take 13 deck"
    let ?ps1 = "AList.update ?p (map Card_toString ?hand) ps"
    let ?rs1 = "AList.update ?p (length ?hand) rs"
    let ?ft1 = "if list_ex (\<lambda>c. Card_value c = Card_value Card_lowest) ?hand then ?p else ft"
    from less.prems have d: "deal (drop 13 deck) ?ps1 ?rs1 ?ft1 = (ps', rs', ft')"
      by (simp only: deal_unfold[OF False])
    from False have shorter: "length (drop 13 deck) < length deck" by simp
    from less.hyps[OF shorter d]
    have IH: "ft' = ?ft1 \<or> (length ?ps1 \<le> ft'
                \<and> ft' < length ?ps1 + (length (drop 13 deck) + 12) div 13)" .
    have l: "length ps \<le> length ?ps1" "length ?ps1 \<le> length ps + 1"
      using length_update_bounds[of ps ?p "map Card_toString ?hand"] by simp_all
    from False have "0 < length deck" by simp
    then have h: "1 + (length (drop 13 deck) + 12) div 13 = (length deck + 12) div 13"
      by (rule hands_count)
    from IH l h show ?thesis by (auto split: if_splits)
  qed
qed

lemma setup_firstTurn:
  assumes "mset deck = mset Card_newDeck"
  shows "firstTurn (Dos_setup deck) < NUM_PLAYERS"
proof -
  obtain ps rs ft where d: "deal deck [] [] 0 = (ps, rs, ft)" by (cases "deal deck [] [] 0")
  from assms have "length deck = 52" by (metis length_newDeck size_mset)
  with deal_firstTurn[OF d] have "ft < 4" by auto
  with d show ?thesis by (simp add: Dos_setup_def NUM_PLAYERS_def)
qed

lemma reachable_ctx:
  "reachable G ctx \<Longrightarrow> numPlayers ctx = NUM_PLAYERS \<and> currentPlayer ctx < NUM_PLAYERS"
proof (induction rule: reachable.induct)
  case (reach_setup deck)
  then show ?case by (simp add: setup_firstTurn)
next
  case (reach_step G ctx G' ctx')
  from reach_step(2) obtain n where n: "getNext G' ctx = Some n" "ctx' = turn_to ctx n"
    by cases auto
  from n(1) have "getNext_loop G' ctx 1 = Some n" by (simp add: getNext_def)
  from getNext_loop_Some[OF this] obtain k where "n = (playOrderPos ctx + k) mod numPlayers ctx"
    by blast
  with reach_step.IH have "n < NUM_PLAYERS" by (simp add: NUM_PLAYERS_def)
  with reach_step.IH n(2) show ?case by (simp add: turn_to_def)
qed

lemma reachable_has_hand:
  assumes "reachable G ctx"
  shows "map_of (players G) (currentPlayer ctx) \<noteq> None"
proof -
  from reachable_cards[OF assms] have "map fst (players G) = [0..<NUM_PLAYERS]" by simp
  then have "fst ` set (players G) = {0..<NUM_PLAYERS}" by (metis set_map set_upt)
  with reachable_ctx[OF assms] show ?thesis by (simp add: map_of_eq_None_iff)
qed

lemma play_Done_facts:
  assumes "play G ctx cs = (Done, G')"
  shows "\<exists>v hand G0. Play_value (Play_fromString cs (Some (currentPlayer ctx))) = Some v
           \<and> map_of (players G) (currentPlayer ctx) = Some hand
           \<and> set (map Card_toString (cards (Play_fromString cs (Some (currentPlayer ctx)))))
               \<subseteq> set hand
           \<and> (G0 = G \<or> G0 = G\<lparr>hasStarted := True\<rparr>)
           \<and> G' = play_commit G0 ctx (Play_fromString cs (Some (currentPlayer ctx)))
                  (map Card_toString (cards (Play_fromString cs (Some (currentPlayer ctx))))) hand"
  using assms
  by (simp add: play_def Let_def list_all_iff subset_iff split: option.splits if_splits) blast+

lemma play_commit_discarded:
  "discarded_cards (play_commit G ctx pl ps hand)
     = discarded_cards G @ defined_entries (fst (discard_cards ps hand))"
  by (simp add: play_commit_def discarded_cards_def Let_def split: prod.splits)


lemma cards_of_fromString:
  "set (cards (Play_fromString cs p)) = Card_fromString ` set cs"
  by (simp add: Play_fromString_def)

lemma reachable_lastPlay:
  "reachable G ctx \<Longrightarrow> lastPlay G = Some lp \<Longrightarrow>
     (\<exists>lv. Play_value lp = Some lv) \<and> set (cards lp) \<subseteq> set Card_newDeck
     \<and> Card_toString ` set (cards lp) \<subseteq> set (discarded_cards G)"
proof (induction arbitrary: lp rule: reachable.induct)
  case (reach_setup deck)
  then show ?case by (simp add: Dos_setup_def split: prod.splits)
next
  case (reach_step G ctx G' ctx')
  from reach_step(2) show ?case
  proof cases
    case (step_play cs n)
    let ?pl = "Play_fromString cs (Some (currentPlayer ctx))"
    let ?ps = "map Card_toString (cards ?pl)"
    from play_Done_facts[OF step_play(3)] obtain v hand G0 where
      v: "Play_value ?pl = Some v" and h: "map_of (players G) (currentPlayer ctx) = Some hand"
      and sub: "set ?ps \<subseteq> set hand" and G0: "G0 = G \<or> G0 = G\<lparr>hasStarted := True\<rparr>"
      and G': "G' = play_commit G0 ctx ?pl ?ps hand" by blast
    obtain ds hand' where d: "discard_cards ?ps hand = (ds, hand')"
      by (cases "discard_cards ?ps hand")
    from reach_step.prems G' d have lp: "lp = ?pl"
      by (simp add: play_commit_winners split: if_splits)
    from G0 have dc: "discarded_cards G0 = discarded_cards G"
      by (auto simp: discarded_cards_def)
    from G' d dc have dis: "discarded_cards G' = discarded_cards G @ defined_entries ds"
      by (simp add: play_commit_discarded)
    from reachable_hands[OF reach_step(1)] have dh: "distinct (hand_cards G)"
      and deck: "set (hand_cards G) \<subseteq> set (map Card_toString Card_newDeck)" by simp_all
    from hand_of_seat[OF h] dh have hs: "set hand \<subseteq> set (hand_cards G)" "distinct hand"
      by simp_all
    have "c \<in> set Card_newDeck" if "c \<in> set (cards ?pl)" for c
    proof -
      from that obtain s where s: "c = Card_fromString s" by (auto simp: cards_of_fromString)
      from that have "Card_toString c \<in> set ?ps" by simp
      with sub hs(1) deck have "Card_toString c \<in> set (map Card_toString Card_newDeck)" by blast
      then show ?thesis unfolding s by (rule fromString_deck)
    qed
    then have a: "set (cards ?pl) \<subseteq> set Card_newDeck" by blast
    from discard_cards_played[OF hs(2) d sub] dis
    have b: "Card_toString ` set (cards ?pl) \<subseteq> set (discarded_cards G')" by auto
    from v a b show ?thesis unfolding lp by blast
  next
    case (step_pass n)
    from step_pass(3) have "(G' = G \<or> G' = G\<lparr>lastPlay := None\<rparr>)"
      by (auto simp: pass_def split: option.splits if_splits)
    with reach_step.prems have "lastPlay G = Some lp" "discarded_cards G' = discarded_cards G"
      by (auto simp: discarded_cards_def)
    with reach_step.IH[of lp] show ?thesis by simp
  qed
qed

lemma play_not_TypeError:
  "map_of (players G) (currentPlayer ctx) \<noteq> None \<Longrightarrow> fst (play G ctx cs) \<noteq> TypeError"
  by (auto simp: play_def Let_def split: option.splits if_splits)

lemma play_rejected:
  assumes "map_of (players G) (currentPlayer ctx) \<noteq> None" and "fst (play G ctx cs) \<noteq> Done"
  shows "play G ctx cs = (INVALID_MOVE, G)"
proof -
  from play_not_TypeError[OF assms(1), of cs] assms(2)
  have "fst (play G ctx cs) = INVALID_MOVE" by (cases "fst (play G ctx cs)") simp_all
  moreover from assms(2) have "snd (play G ctx cs) = G" by (rule play_rejected_unchanged)
  ultimately show ?thesis by (metis prod.collapse)
qed

lemma reachable_no_tie:
  assumes r: "reachable G ctx" and lp: "lastPlay G = Some lp"
    and d: "fst (play G ctx cs) = Done"
    and v: "Play_value (Play_fromString cs (Some (currentPlayer ctx))) = Some v"
  shows "Play_value lp \<noteq> Some v"
proof
  assume t: "Play_value lp = Some v"
  let ?pl = "Play_fromString cs (Some (currentPlayer ctx))"
  from play_on_lastPlay[OF lp d] obtain hand where
    h: "map_of (players G) (currentPlayer ctx) = Some hand"
    and sub: "set (map Card_toString (cards ?pl)) \<subseteq> set hand" by blast
  from reachable_hands[OF r] have dj: "set (hand_cards G) \<inter> set (discarded_cards G) = {}"
    and deck: "set (hand_cards G) \<subseteq> set (map Card_toString Card_newDeck)" by simp_all
  from hand_of_seat(1)[OF h] have hs: "set hand \<subseteq> set (hand_cards G)" .
  from reachable_lastPlay[OF r lp] have ld: "set (cards lp) \<subseteq> set Card_newDeck"
    and ls: "Card_toString ` set (cards lp) \<subseteq> set (discarded_cards G)" by simp_all
  have "c \<in> set Card_newDeck" if "c \<in> set (cards ?pl)" for c
  proof -
    from that obtain s where s: "c = Card_fromString s" by (auto simp: cards_of_fromString)
    from that have "Card_toString c \<in> set (map Card_toString (cards ?pl))" by simp
    with sub hs deck have "Card_toString c \<in> set (map Card_toString Card_newDeck)" by blast
    then show ?thesis unfolding s by (rule fromString_deck)
  qed
  then have pd: "set (cards ?pl) \<subseteq> set Card_newDeck" by blast
  from same_value_shared_card[OF pd ld v t] obtain a where
    a: "a \<in> set (cards ?pl)" "a \<in> set (cards lp)" by blast
  from a(1) sub hs have "Card_toString a \<in> set (hand_cards G)" by auto
  moreover from a(2) ls have "Card_toString a \<in> set (discarded_cards G)" by auto
  ultimately show False using dj by blast
qed

text \<open>
  C2: in every state the game reaches in which \<open>lastPlay\<close> is present, the last play has
  an evaluator value, and \<open>play\<close> is accepted only if the submitted cards are as many as
  those of the last play and their evaluator value is strictly greater than that of the
  last play; a play whose length differs, or whose value is equal to or lower than that of
  the last play, is rejected with \<open>INVALID_MOVE\<close> and leaves the state unchanged.

  The comparison in the code is \<open>playValue < G.lastPlay.value\<close>, which alone lets an equal
  value through. In a reachable state the cards of the last play lie in the discard
  groups and the submitted cards in the hand of the seat, two plays of deck cards with the
  same value share a card (\<open>same_value_shared_card\<close>), and no card is both held and
  discarded (\<open>reachable_hands\<close>): an accepted play never ties the last play.
\<close>

theorem play_must_beat_lastPlay:
  assumes "reachable G ctx" and "lastPlay G = Some lp"
  shows "\<exists>lv. Play_value lp = Some lv
       \<and> (fst (play G ctx cs) = Done \<longrightarrow>
            length cs = length (cards lp)
            \<and> (\<exists>v. Play_value (Play_fromString cs (Some (currentPlayer ctx))) = Some v
                  \<and> lv < v))
       \<and> (length cs \<noteq> length (cards lp) \<longrightarrow> play G ctx cs = (INVALID_MOVE, G))
       \<and> (\<forall>v. Play_value (Play_fromString cs (Some (currentPlayer ctx))) = Some v
              \<and> v \<le> lv \<longrightarrow> play G ctx cs = (INVALID_MOVE, G))"
proof -
  let ?pl = "Play_fromString cs (Some (currentPlayer ctx))"
  from reachable_lastPlay[OF assms] obtain lv where lv: "Play_value lp = Some lv" by blast
  note hand = reachable_has_hand[OF assms(1)]
  have acc: "length cs = length (cards lp) \<and> (\<exists>v. Play_value ?pl = Some v \<and> lv < v)"
    if d: "fst (play G ctx cs) = Done"
  proof -
    from play_on_lastPlay[OF assms(2) d] lv obtain v where
      l: "length cs = length (cards lp)" and v: "Play_value ?pl = Some v" and le: "lv \<le> v"
      by auto
    from reachable_no_tie[OF assms d v] lv have "v \<noteq> lv" by simp
    with l v le show ?thesis by auto
  qed
  have p1: "fst (play G ctx cs) = Done \<longrightarrow>
      length cs = length (cards lp) \<and> (\<exists>v. Play_value ?pl = Some v \<and> lv < v)"
    using acc by blast
  have p2: "length cs \<noteq> length (cards lp) \<longrightarrow> play G ctx cs = (INVALID_MOVE, G)"
    using acc play_rejected[OF hand, of cs] by blast
  have p3: "\<forall>v. Play_value ?pl = Some v \<and> v \<le> lv \<longrightarrow> play G ctx cs = (INVALID_MOVE, G)"
  proof (intro allI impI)
    fix v assume a: "Play_value ?pl = Some v \<and> v \<le> lv"
    have "fst (play G ctx cs) \<noteq> Done"
    proof
      assume "fst (play G ctx cs) = Done"
      from acc[OF this] a show False by auto
    qed
    then show "play G ctx cs = (INVALID_MOVE, G)" by (rule play_rejected[OF hand])
  qed
  from lv p1 p2 p3 show ?thesis by blast
qed


lemma example_led_run:
  "run_moves example_deal (seat_ctx 0) [Play_cards [''3C'']] = Some (example_led, seat_ctx 1)"
  by code_simp

lemma example_round_run:
  "run_moves example_deal (seat_ctx 0)
       [Play_cards [''3C''], Play_cards [''6S''], Play_cards [''9H''], Play_cards [''QD'']]
   = Some (example_round, seat_ctx 0)"
  by code_simp

theorem play_must_beat_lastPlay_witness:
  "reachable example_led (seat_ctx 1)
   \<and> lastPlay example_led = Some (Play_fromString [''3C''] (Some 0))
   \<and> fst (play example_led (seat_ctx 1) [''6S'']) = Done
   \<and> (\<exists>lv v. Play_value (Play_fromString [''3C''] (Some 0)) = Some lv
          \<and> Play_value (Play_fromString [''6S''] (Some 1)) = Some v \<and> lv < v)
   \<and> play example_led (seat_ctx 1) [''6S'', ''6H''] = (INVALID_MOVE, example_led)
   \<and> reachable example_round (seat_ctx 0)
   \<and> lastPlay example_round = Some (Play_fromString [''QD''] (Some 3))
   \<and> Play_value (Play_fromString [''QD''] (Some 3)) = Some 39
   \<and> Play_value (Play_fromString [''3S''] (Some 0)) = Some 1
   \<and> play example_round (seat_ctx 0) [''3S''] = (INVALID_MOVE, example_round)"
proof -
  let ?lp = "Play_fromString [''3C''] (Some 0)"
  let ?lq = "Play_fromString [''QD''] (Some 3)"
  have r: "reachable example_led (seat_ctx 1)"
    using later_reachable[OF run_moves_later[OF example_led_run] example_deal_reachable] .
  have l: "lastPlay example_led = Some ?lp" by code_simp
  have d: "fst (play example_led (seat_ctx 1) [''6S'']) = Done" by code_simp
  have c1: "currentPlayer (seat_ctx 1) = 1" by (simp add: seat_ctx_def)
  from play_must_beat_lastPlay[OF r l, of "[''6S'']"] d
  have a: "\<exists>lv v. Play_value ?lp = Some lv
             \<and> Play_value (Play_fromString [''6S''] (Some 1)) = Some v \<and> lv < v"
    unfolding c1 by blast
  have n: "length [''6S'', ''6H''] \<noteq> length (cards ?lp)" by code_simp
  from play_must_beat_lastPlay[OF r l, of "[''6S'', ''6H'']"] n
  have b: "play example_led (seat_ctx 1) [''6S'', ''6H''] = (INVALID_MOVE, example_led)"
    by blast
  have r': "reachable example_round (seat_ctx 0)"
    using later_reachable[OF run_moves_later[OF example_round_run] example_deal_reachable] .
  have l': "lastPlay example_round = Some ?lq" by code_simp
  have vq: "Play_value ?lq = Some 39" by code_simp
  have vs: "Play_value (Play_fromString [''3S''] (Some 0)) = Some 1" by code_simp
  have c0: "currentPlayer (seat_ctx 0) = 0" by (simp add: seat_ctx_def)
  from play_must_beat_lastPlay[OF r' l', of "[''3S'']"] vq vs
  have c: "play example_round (seat_ctx 0) [''3S''] = (INVALID_MOVE, example_round)"
    unfolding c0 by auto
  from r l d a b r' l' vq vs c show ?thesis by blast
qed

end
